theory Spec2Isabelle
  imports Complex_Main "HOL-Library.Option_ord"
begin

section \<open>Python strings\<close>

text \<open>
  A Python \<open>str\<close> is a sequence of Unicode code points, and \<open>len\<close>, slicing and the
  \<open>re\<close> module all count code points. A string is therefore a list of code points (natural
  numbers), not a list of bytes. \<open>ustr\<close> writes an ASCII literal as such a list.

  The character classes below are the ones the source names. \<open>isspace\<close> is the set that both
  \<open>str.isspace\<close> (used by \<open>strip\<close> and \<open>split\<close>) and the regular expression class \<open>\s\<close> of
  \<open>re\<close> on \<open>str\<close> patterns accept.

  \<open>str.lower\<close> is written out for the code points below 256 and for the five code points
  above 255 whose lower-case form has a character below 256 (U+0130, U+0178, U+1E9E, U+212A,
  U+212B). Every other case pair of Unicode maps a letter above 255 to letters above 255 and
  is left in place here; \<open>_norm_for_match\<close> replaces either by a space, and the keywords of
  \<open>lexicon.py\<close> are ASCII. \<open>str.capitalize\<close> is likewise written out below 256.
\<close>

type_synonym codepoint = nat
type_synonym str = "codepoint list"

definition ustr :: "string \<Rightarrow> str" where
  "ustr s = map of_char s"

definition isspace :: "codepoint \<Rightarrow> bool" where
  "isspace c \<longleftrightarrow>
     (9 \<le> c \<and> c \<le> 13) \<or> (28 \<le> c \<and> c \<le> 32) \<or> c = 133 \<or> c = 160 \<or> c = 5760 \<or>
     (8192 \<le> c \<and> c \<le> 8202) \<or> c = 8232 \<or> c = 8233 \<or> c = 8239 \<or> c = 8287 \<or> c = 12288"

definition is_lower_az :: "codepoint \<Rightarrow> bool" where
  "is_lower_az c \<longleftrightarrow> 97 \<le> c \<and> c \<le> 122"

definition is_upper_AZ :: "codepoint \<Rightarrow> bool" where
  "is_upper_AZ c \<longleftrightarrow> 65 \<le> c \<and> c \<le> 90"

definition is_digit :: "codepoint \<Rightarrow> bool" where
  "is_digit c \<longleftrightarrow> 48 \<le> c \<and> c \<le> 57"

definition lower_cp :: "codepoint \<Rightarrow> str" where
  "lower_cp c =
     (if is_upper_AZ c then [c + 32]
      else if 192 \<le> c \<and> c \<le> 222 \<and> c \<noteq> 215 then [c + 32]
      else if c = 304 then [105, 775]
      else if c = 376 then [255]
      else if c = 7838 then [223]
      else if c = 8490 then [107]
      else if c = 8491 then [229]
      else [c])"

definition lower :: "str \<Rightarrow> str" where
  "lower s = concat (map lower_cp s)"

definition title_cp :: "codepoint \<Rightarrow> str" where
  "title_cp c =
     (if is_lower_az c then [c - 32]
      else if 224 \<le> c \<and> c \<le> 254 \<and> c \<noteq> 247 then [c - 32]
      else if c = 181 then [924]
      else if c = 223 then [83, 115]
      else if c = 255 then [376]
      else [c])"

fun capitalize :: "str \<Rightarrow> str" where
  "capitalize [] = []"
| "capitalize (c # cs) = title_cp c @ lower cs"

definition strip :: "str \<Rightarrow> str" where
  "strip s = rev (dropWhile isspace (rev (dropWhile isspace s)))"

function split :: "str \<Rightarrow> str list" where
  "split s =
     (case dropWhile isspace s of
        [] \<Rightarrow> []
      | c # cs \<Rightarrow> takeWhile (\<lambda>d. \<not> isspace d) (c # cs)
                 # split (dropWhile (\<lambda>d. \<not> isspace d) (c # cs)))"
  by pat_completeness auto
termination
proof (relation "measure length", goal_cases)
  case 1
  show ?case by simp
next
  case (2 s c cs)
  have "length (dropWhile (\<lambda>d. \<not> isspace d) (c # cs)) < length (c # cs)"
    using 2 hd_dropWhile[of isspace s] by (auto intro: le_imp_less_Suc length_dropWhile_le)
  also have "\<dots> \<le> length s"
    using length_dropWhile_le[of isspace s] 2 by simp
  finally show ?case by simp
qed

declare split.simps [simp del]

fun join :: "str \<Rightarrow> str list \<Rightarrow> str" where
  "join sep [] = []"
| "join sep [x] = x"
| "join sep (x # y # ys) = x @ sep @ join sep (y # ys)"

text \<open>\<open>s.replace(old, new)\<close>: every occurrence of \<open>old\<close>, left to right, without overlap;
  an empty \<open>old\<close> matches before every character and at the end.\<close>

function replace_nonempty :: "str \<Rightarrow> str \<Rightarrow> str \<Rightarrow> str" where
  "replace_nonempty [] old new = []"
| "replace_nonempty (c # cs) old new =
     (if old \<noteq> [] \<and> take (length old) (c # cs) = old
      then new @ replace_nonempty (drop (length old) (c # cs)) old new
      else c # replace_nonempty cs old new)"
  by pat_completeness auto
termination
  by (relation "measure (\<lambda>(s, old, new). length s)") auto

definition str_replace :: "str \<Rightarrow> str \<Rightarrow> str \<Rightarrow> str" where
  "str_replace s old new =
     (if old = [] then new @ concat (map (\<lambda>c. c # new) s)
      else replace_nonempty s old new)"

section \<open>Regular-expression substitutions of \<open>serve_api.py\<close>\<close>

text \<open>\<open>re.sub(r"http\S+", " ", s)\<close>: a match starts at the leftmost \<open>http\<close> that is followed
  by at least one non-space character and runs through all the non-space characters after
  it; the scan resumes after the match.\<close>

function sub_http :: "str \<Rightarrow> str" where
  "sub_http [] = []"
| "sub_http (c # cs) =
     (if take 4 (c # cs) = [104, 116, 116, 112]
         \<and> (case drop 4 (c # cs) of [] \<Rightarrow> False | d # _ \<Rightarrow> \<not> isspace d)
      then 32 # sub_http (dropWhile (\<lambda>d. \<not> isspace d) (drop 4 (c # cs)))
      else c # sub_http cs)"
  by pat_completeness auto
termination
proof (relation "measure length", goal_cases)
  case 1
  show ?case by simp
next
  case (2 c cs)
  have "length (dropWhile (\<lambda>d. \<not> isspace d) (drop 3 cs)) \<le> length (drop 3 cs)"
    by (rule length_dropWhile_le)
  then show ?case by simp
next
  case (3 c cs)
  show ?case by simp
qed

text \<open>\<open>re.sub(r"\s+", " ", s)\<close>: each maximal run of white space becomes one space.\<close>

function sub_spaces :: "str \<Rightarrow> str" where
  "sub_spaces [] = []"
| "sub_spaces (c # cs) =
     (if isspace c then 32 # sub_spaces (dropWhile isspace cs)
      else c # sub_spaces cs)"
  by pat_completeness auto
termination
proof (relation "measure length", goal_cases)
  case 1
  show ?case by simp
next
  case (2 c cs)
  show ?case using length_dropWhile_le[of isspace cs] by simp
next
  case (3 c cs)
  show ?case by simp
qed

text \<open>The class \<open>[^A-Za-z0-9\s\-\<dots>'\<dots>]\<close> of \<open>normalize_text\<close>: the two quotation marks it
  keeps are U+0027 and U+2019.\<close>

definition display_keep :: "codepoint \<Rightarrow> bool" where
  "display_keep c \<longleftrightarrow>
     is_upper_AZ c \<or> is_lower_az c \<or> is_digit c \<or> isspace c \<or> c = 45 \<or> c = 8217 \<or> c = 39"

definition normalize_text :: "str \<Rightarrow> str" where
  "normalize_text s =
     (let s = sub_http s;
          s = map (\<lambda>c. if display_keep c then c else 32) s;
          s = strip (sub_spaces s)
      in s)"

text \<open>The class \<open>[-\<dots>_/]\<close> of \<open>_norm_for_match\<close>: hyphen-minus, en dash U+2013, em dash
  U+2014, underscore and slash.\<close>

definition is_dash :: "codepoint \<Rightarrow> bool" where
  "is_dash c \<longleftrightarrow> c = 45 \<or> c = 8211 \<or> c = 8212 \<or> c = 95 \<or> c = 47"

definition match_keep :: "codepoint \<Rightarrow> bool" where
  "match_keep c \<longleftrightarrow> is_lower_az c \<or> is_digit c \<or> isspace c"

definition norm_for_match :: "str \<Rightarrow> str" where
  "norm_for_match s =
     (let s = lower s;
          s = map (\<lambda>c. if is_dash c then 32 else c) s;
          s = map (\<lambda>c. if match_keep c then c else 32) s;
          s = strip (sub_spaces s)
      in s)"

definition ngram_set :: "str \<Rightarrow> str set" where
  "ngram_set text =
     (let toks = split text;
          grams = set toks;
          grams = grams \<union> set (map (\<lambda>i. join [32] (take 2 (drop i toks))) [0 ..< length toks - 1]);
          grams = grams \<union> set (map (\<lambda>i. join [32] (take 3 (drop i toks))) [0 ..< length toks - 2])
      in grams)"

section \<open>Errors, dictionaries and the random source\<close>

text \<open>
  Exceptions are values: \<open>ValueError\<close>, \<open>IndexError\<close> and \<open>KeyError\<close> are Python's own;
  \<open>ModelNotTrained\<close> is the error dictionary that \<open>classify\<close> returns when no model file was
  loaded. \<open>FormatNotModelled\<close> marks a replacement field of \<open>str.format\<close> that uses a
  conversion, a format specification, an attribute or an index; no template of
  \<open>lexicon.py\<close> has one.
\<close>

datatype error = ModelNotTrained | ValueError | IndexError | KeyError | FormatNotModelled

definition bind :: "error + 'a \<Rightarrow> ('a \<Rightarrow> error + 'b) \<Rightarrow> error + 'b" where
  "bind m f = (case m of Inl e \<Rightarrow> Inl e | Inr x \<Rightarrow> f x)"

text \<open>A \<open>dict\<close> keeps its keys in insertion order; assigning to a key that is present keeps
  the key's position.\<close>

type_synonym ('k, 'v) dict = "('k \<times> 'v) list"

fun dict_set :: "('k, 'v) dict \<Rightarrow> 'k \<Rightarrow> 'v \<Rightarrow> ('k, 'v) dict" where
  "dict_set [] k v = [(k, v)]"
| "dict_set ((k', v') # d) k v =
     (if k' = k then (k, v) # d else (k', v') # dict_set d k v)"

definition dict_of_items :: "('k \<times> 'v) list \<Rightarrow> ('k, 'v) dict" where
  "dict_of_items kvs = fold (\<lambda>(k, v) d. dict_set d k v) kvs []"

definition dict_keys :: "('k, 'v) dict \<Rightarrow> 'k list" where
  "dict_keys d = map fst d"

definition dict_get :: "('k, 'v) dict \<Rightarrow> 'k \<Rightarrow> 'v \<Rightarrow> 'v" where
  "dict_get d k dflt = (case map_of d k of None \<Rightarrow> dflt | Some v \<Rightarrow> v)"

definition dict_item :: "('k, 'v) dict \<Rightarrow> 'k \<Rightarrow> error + 'v" where
  "dict_item d k = (case map_of d k of None \<Rightarrow> Inl KeyError | Some v \<Rightarrow> Inr v)"

text \<open>\<open>max(xs, key=f)\<close>: the first element with the largest key; \<open>ValueError\<close> on an empty
  sequence.\<close>

fun max_key :: "'a list \<Rightarrow> ('a \<Rightarrow> 'b::linorder) \<Rightarrow> error + 'a" where
  "max_key [] f = Inl ValueError"
| "max_key (x # xs) f = Inr (fold (\<lambda>y best. if f best < f y then y else best) xs x)"

text \<open>The module \<open>random\<close> holds hidden state. Here the state is explicit: the list of the
  draws still to come (an exhausted list draws 0). \<open>random.choice\<close> raises \<open>IndexError\<close>
  on an empty sequence.\<close>

type_synonym rng = "nat list"

fun random_choice :: "rng \<Rightarrow> 'a list \<Rightarrow> error + ('a \<times> rng)" where
  "random_choice g [] = Inl IndexError"
| "random_choice [] (x # xs) = Inr (x, [])"
| "random_choice (n # g) (x # xs) = Inr ((x # xs) ! (n mod length (x # xs)), g)"

text \<open>\<open>round(x, 4)\<close> rounds the exact value of the float \<open>x\<close> to the nearest multiple of
  \<open>1/10000\<close>, an exact tie going to the even multiple.\<close>

definition round_half_even :: "rat \<Rightarrow> int" where
  "round_half_even y =
     (let f = \<lfloor>y\<rfloor>; d = y - of_int f
      in if d < 1 / 2 then f else if 1 / 2 < d then f + 1 else if even f then f else f + 1)"

definition round4 :: "rat \<Rightarrow> rat" where
  "round4 x = of_int (round_half_even (x * 10000)) / 10000"

text \<open>
  A Python \<open>float\<close> is an IEEE 754 binary64 number; a finite one is a rational number, and
  that is how the scores of the classifier are held here. Sums and products are rounded: the
  result of \<open>x + y\<close> is the double nearest to the exact sum, an exact tie going to the one
  with the even significand, and a literal such as \<open>0.52\<close> is the double nearest to the
  decimal. \<open>dbl\<close> is that rounding. A double has 53 significant bits, so for
  \<open>2\<^sup>e \<le> |x| < 2\<^sup>e\<^sup>+\<^sup>1\<close> the doubles around \<open>x\<close> are the multiples of \<open>2\<^sup>e\<^sup>-\<^sup>5\<^sup>2\<close>; below
  \<open>2\<^sup>-\<^sup>1\<^sup>0\<^sup>2\<^sup>2\<close> (the subnormal numbers) they are the multiples of \<open>2\<^sup>-\<^sup>1\<^sup>0\<^sup>7\<^sup>4\<close>. Overflow to
  infinity is not modelled: with a finite score \<open>s\<close>, neither \<open>0.48 * s\<close> nor the sum with
  \<open>0.52\<close> reaches \<open>2\<^sup>1\<^sup>0\<^sup>2\<^sup>4\<close>.

  \<open>round(x, 4)\<close> returns the double nearest to the decimal that \<open>round4\<close> gives for the
  exact value of \<open>x\<close>; a decimal with four places stands for that double here.
\<close>

function ilog2 :: "int \<Rightarrow> int" where
  "ilog2 n = (if n < 2 then 0 else 1 + ilog2 (n div 2))"
  by auto
termination
  by (relation "measure nat") auto

declare ilog2.simps [simp del]

text \<open>The binary exponent of a positive rational: the \<open>e\<close> with \<open>2\<^sup>e \<le> x < 2\<^sup>e\<^sup>+\<^sup>1\<close>.\<close>

definition exponent :: "rat \<Rightarrow> int" where
  "exponent x =
     (if 1 \<le> x then ilog2 \<lfloor>x\<rfloor>
      else - (1 + ilog2 (\<lceil>1 / x\<rceil> - 1)))"

definition dbl :: "rat \<Rightarrow> rat" where
  "dbl x =
     (if x = 0 then 0
      else let e = max (exponent \<bar>x\<bar>) (- 1022);
               q = 2 powi (e - 52)
           in of_int (round_half_even (x / q)) * q)"

definition fadd :: "rat \<Rightarrow> rat \<Rightarrow> rat" where
  "fadd x y = dbl (x + y)"

definition fmul :: "rat \<Rightarrow> rat \<Rightarrow> rat" where
  "fmul x y = dbl (x * y)"

section \<open>The lexicon (\<open>lexicon.py\<close>)\<close>

text \<open>An archetype is a dictionary read with \<open>.get(key, default)\<close> throughout, so an absent
  key and an empty value are the same thing: the record holds the empty value.\<close>

record lexicon =
  keywords_lex :: "str list"
  replace :: "(str, str) dict"
  templates :: "str list"
  verbs :: "str list"
  verbs2 :: "str list"
  verbs3 :: "str list"
  benefits :: "str list"

definition empty_lexicon :: lexicon where
  "empty_lexicon = \<lparr>keywords_lex = [], replace = [], templates = [], verbs = [], verbs2 = [],
     verbs3 = [], benefits = []\<rparr>"

definition REBEL :: lexicon where
  "REBEL = \<lparr>
     keywords_lex = map ustr
       [''break'', ''break rules'', ''rule breaking'', ''rule-breaking'', ''rebel'', ''outlaw'',
        ''defy'', ''defiant'', ''disrupt'', ''nonconformist'', ''unapologetic'', ''maverick'',
        ''against the grain'', ''anarchy'', ''riot'', ''unbound'', ''bold'', ''independent'',
        ''freedom'', ''smash'', ''refuse'', ''resist'', ''revolt''],
     replace =
       [(ustr ''innovative'', ustr ''rule-breaking''), (ustr ''features'', ustr ''firepower''),
        (ustr ''solutions'', ustr ''weapons''), (ustr ''technology'', ustr ''anarchy-grade tech'')],
     templates = map ustr
       [''We {verb} the rules so you can {benefit}.'',
        ''No permission needed. {brand} {verb2} limits.'',
        ''{brand} is for the ones who {verb3} conformity.''],
     verbs = map ustr [''break'', ''defy'', ''smash''],
     verbs2 = map ustr [''obliterates'', ''wrecks''],
     verbs3 = map ustr [''refuse'', ''destroy''],
     benefits = map ustr [''move free'', ''own your path'']\<rparr>"

definition CAREGIVER :: lexicon where
  "CAREGIVER = \<lparr>
     keywords_lex = map ustr
       [''care'', ''caring'', ''nurture'', ''nurturing'', ''protect'', ''protection'', ''support'',
        ''supportive'', ''safe'', ''safety'', ''compassion'', ''compassionate'', ''empathy'',
        ''gentle'', ''warm'', ''warmth'', ''embrace'', ''family'', ''trust'', ''wellbeing'',
        ''well being'', ''well-being'', ''shield'', ''comfort'', ''soothe'', ''reassure'',
        ''healing'', ''kindness'', ''help'', ''tender'', ''listen''],
     replace =
       [(ustr ''features'', ustr ''care standards''), (ustr ''technology'', ustr ''care tech'')],
     templates =
       [ustr ''{brand} is here to {verb} you'' @ [8212] @ ustr ''every step.'',
        ustr ''Because your {benefit} deserves gentle, proven care.''],
     verbs = map ustr [''support'', ''protect''],
     verbs2 = [],
     verbs3 = [],
     benefits = map ustr [''family'', ''peace of mind'']\<rparr>"

definition EXPLORER :: lexicon where
  "EXPLORER = \<lparr>
     keywords_lex = map ustr
       [''explore'', ''discover'', ''adventure'', ''freedom'', ''wander'', ''roam'', ''journey'',
        ''trail'', ''frontier'', ''off road'', ''off-road'', ''beyond'', ''horizon'', ''wild'',
        ''map'', ''path'', ''route'', ''expedition'', ''uncharted'', ''out there'',
        ''find your own way''],
     replace =
       [(ustr ''features'', ustr ''trail tools''), (ustr ''technology'', ustr ''navigation tech'')],
     templates =
       [ustr ''Go {verb} the map'' @ [8212] @ ustr ''{brand} equips your {benefit}.'',
        ustr ''Every path is a story. {brand} gets you there.''],
     verbs = map ustr [''beyond'', ''off''],
     verbs2 = [],
     verbs3 = [],
     benefits = map ustr [''next route'', ''bold journey'']\<rparr>"

definition ARCHETYPES :: "(str, lexicon) dict" where
  "ARCHETYPES =
     [(ustr ''Rebel'', REBEL), (ustr ''Caregiver'', CAREGIVER), (ustr ''Explorer'', EXPLORER)]"

section \<open>The matcher\<close>

definition keyword_hits :: "str set \<Rightarrow> str list \<Rightarrow> str list" where
  "keyword_hits grams kws = map lower (filter (\<lambda>kw. norm_for_match kw \<in> grams) kws)"

definition analyze_patterns_all :: "str \<Rightarrow> (str, str list) dict" where
  "analyze_patterns_all text =
     (let norm_text = norm_for_match text;
          grams = ngram_set norm_text
      in fold (\<lambda>(name, lex) out. dict_set out name (keyword_hits grams (keywords_lex lex)))
           ARCHETYPES [])"

section \<open>The rewrite generator\<close>

text \<open>\<open>template.format(**kwargs)\<close> for templates whose replacement fields are plain names:
  \<open>{{\<close> and \<open>}}\<close> are literal braces, a lone brace is a \<open>ValueError\<close>, an unknown name a
  \<open>KeyError\<close>, an empty or numeric field an \<open>IndexError\<close> (there are no positional
  arguments). Code points: \<open>{\<close> is 123, \<open>}\<close> is 125; \<open>!\<close>, \<open>:\<close>, \<open>.\<close>, \<open>[\<close> are 33, 58, 46, 91.\<close>

function format_fields :: "str \<Rightarrow> (str, str) dict \<Rightarrow> error + str" where
  "format_fields [] kw = Inr []"
| "format_fields (c # cs) kw =
     (if c = 123 then
        (case cs of
           [] \<Rightarrow> Inl ValueError
         | d # ds \<Rightarrow>
             if d = 123 then bind (format_fields ds kw) (\<lambda>r. Inr (123 # r))
             else if 125 \<notin> set cs then Inl ValueError
             else
               (let name = takeWhile (\<lambda>x. x \<noteq> 125) cs;
                    rest = drop 1 (dropWhile (\<lambda>x. x \<noteq> 125) cs)
                in if list_all is_digit name then Inl IndexError
                   else if list_ex (\<lambda>x. x \<in> {33, 58, 46, 91, 123}) name
                   then Inl FormatNotModelled
                   else bind (dict_item kw name) (\<lambda>v.
                        bind (format_fields rest kw) (\<lambda>r. Inr (v @ r)))))
      else if c = 125 then
        (case cs of
           [] \<Rightarrow> Inl ValueError
         | d # ds \<Rightarrow>
             if d = 125 then bind (format_fields ds kw) (\<lambda>r. Inr (125 # r))
             else Inl ValueError)
      else bind (format_fields cs kw) (\<lambda>r. Inr (c # r)))"
  by pat_completeness auto
termination
proof (relation "measure (\<lambda>(s, kw). length s)", goal_cases)
  case 1
  show ?case by simp
next
  case (2 c cs kw d ds)
  then show ?case by simp
next
  case (3 c cs kw d ds name rest v)
  have "length (dropWhile (\<lambda>x. x \<noteq> 125) cs) \<le> length cs"
    by (rule length_dropWhile_le)
  with 3 show ?case by simp
next
  case (4 c cs kw d ds)
  then show ?case by simp
next
  case (5 c cs kw)
  show ?case by simp
qed

definition pick :: "rng \<Rightarrow> str list \<Rightarrow> str \<Rightarrow> error + (str \<times> rng)" where
  "pick g arr dflt = (if arr \<noteq> [] then random_choice g arr else Inr (dflt, g))"

text \<open>The word swaps of \<open>rewrite\<close>: for each pair of the \<open>replace\<close> dictionary, in its
  order, the literal key and then its capitalised form.\<close>

definition apply_replacements :: "(str, str) dict \<Rightarrow> str \<Rightarrow> str" where
  "apply_replacements repl text =
     fold (\<lambda>(k, v) t. str_replace (str_replace t k v) (capitalize k) (capitalize v)) repl text"

text \<open>The body of \<open>rewrite\<close> once the archetype \<open>lex\<close> has been looked up (here \<open>lx\<close>). The draws are made in the
  order of evaluation: the template, then \<open>verb\<close>, \<open>verb2\<close>, \<open>verb3\<close>, \<open>benefit\<close>.\<close>

definition rewrite_lex :: "lexicon \<Rightarrow> rng \<Rightarrow> str \<Rightarrow> str \<Rightarrow> error + (str \<times> rng)" where
  "rewrite_lex lx g text brand =
     (let text = apply_replacements (replace lx) text;
          tmpls = templates lx
      in if tmpls = [] then
           (let t = normalize_text text
            in Inr (if 120 < length t then take 120 t @ ustr ''...'' else t, g))
         else
           bind (random_choice g tmpls) (\<lambda>(t, g).
           bind (pick g (verbs lx) (ustr ''support'')) (\<lambda>(verb, g).
           bind (pick g (verbs2 lx) (ustr ''go'')) (\<lambda>(verb2, g).
           bind (pick g (verbs3 lx) (ustr ''move'')) (\<lambda>(verb3, g).
           bind (pick g (benefits lx) (ustr ''what matters'')) (\<lambda>(benefit, g).
           bind (format_fields t
                   [(ustr ''brand'', brand), (ustr ''verb'', verb), (ustr ''verb2'', verb2),
                    (ustr ''verb3'', verb3), (ustr ''benefit'', benefit)]) (\<lambda>s.
           Inr (s, g))))))))"

definition rewrite :: "rng \<Rightarrow> str \<Rightarrow> str \<Rightarrow> str \<Rightarrow> error + (str \<times> rng)" where
  "rewrite g text target brand =
     rewrite_lex (dict_get ARCHETYPES target empty_lexicon) g text brand"

section \<open>The decision engine (\<open>classify\<close>)\<close>

text \<open>The trained model is an external object: its label list \<open>classes_\<close> and its
  \<open>predict_proba\<close>, a function of the text. \<open>None\<close> is the module with no model file found.\<close>

record classifier =
  classes :: "str list"
  predict_proba :: "str \<Rightarrow> rat list"

record response =
  label :: str
  confidence :: rat
  scores :: "(str, rat) dict"
  patterns_found :: "str list"
  patterns_missing :: "str list"
  patterns_found_all :: "(str, str list) dict"
  suggestions :: "str list"
  example_rewrite :: str

text \<open>Step 1: \<open>{labels[i]: float(probs[i]) for i in range(len(labels))}\<close>; reading
  \<open>probs[i]\<close> past its end is an \<open>IndexError\<close>.\<close>

definition model_scores :: "str list \<Rightarrow> rat list \<Rightarrow> error + (str, rat) dict" where
  "model_scores labels probs =
     (if length probs < length labels then Inl IndexError
      else Inr (dict_of_items (map (\<lambda>i. (labels ! i, probs ! i)) [0 ..< length labels])))"

text \<open>Step 3: \<open>max(scores, key=scores.get)\<close>. \<open>scores.get\<close> returns an optional value;
  it is read at keys of \<open>scores\<close> only.\<close>

definition model_top :: "(str, rat) dict \<Rightarrow> error + str" where
  "model_top scs = max_key (dict_keys scs) (\<lambda>k. map_of scs k)"

text \<open>Step 4, the lexicon-aware override. \<open>lex_label_of\<close> and \<open>lex_hits_of\<close> are the two
  assignments to \<open>lex_label\<close> and \<open>lex_hits\<close>. \<open>found_all[k]\<close> inside the key function is
  read at keys of \<open>found_all\<close> only, so its default is never taken.\<close>

definition lex_label_of :: "(str, str list) dict \<Rightarrow> error + str option" where
  "lex_label_of found_all =
     (if found_all \<noteq> []
      then map_sum id Some
             (max_key (dict_keys found_all) (\<lambda>k. length (dict_get found_all k [])))
      else Inr None)"

definition lex_hits_of :: "(str, str list) dict \<Rightarrow> (str, nat) dict" where
  "lex_hits_of found_all = dict_of_items (map (\<lambda>(k, v). (k, length v)) found_all)"

text \<open>The expression \<open>0.52 + 0.48 * s\<close> of the override, in double arithmetic.\<close>

definition blend :: "rat \<Rightarrow> rat" where
  "blend s = fadd (dbl (52 / 100)) (fmul (dbl (48 / 100)) s)"

definition lexicon_override ::
    "str \<Rightarrow> rat \<Rightarrow> (str, rat) dict \<Rightarrow> (str, str list) dict \<Rightarrow> error + (str \<times> rat)" where
  "lexicon_override top0 conf0 scs found_all =
     bind (lex_label_of found_all) (\<lambda>lex_label.
     let lex_hits = lex_hits_of found_all
     in case lex_label of
          None \<Rightarrow> Inr (top0, conf0)
        | Some ll \<Rightarrow>
            if ll \<noteq> [] \<and> ll \<noteq> top0 then
              bind (dict_item lex_hits ll) (\<lambda>n.
              let strong = (2 \<le> n);
                  margin = (dict_get lex_hits top0 0 + 2 \<le> n);
                  lowc = (conf0 < 55 / 100)
              in if strong \<and> (margin \<or> lowc)
                 then Inr (ll, round4 (blend (dict_get scs ll 0)))
                 else Inr (top0, conf0))
            else Inr (top0, conf0))"

text \<open>Step 7: \<open>sorted(..., reverse=True)\<close> is stable, equal scores keep the order of
  \<open>scores\<close>; that is the stable ascending sort by the negated score.\<close>

definition top3_scores :: "(str, rat) dict \<Rightarrow> (str, rat) dict" where
  "top3_scores scs =
     (let top3 = dict_of_items (take 3 (sort_key (\<lambda>kv. - snd kv) scs))
      in dict_of_items (map (\<lambda>(k, v). (k, round4 v)) top3))"

definition classify :: "classifier option \<Rightarrow> rng \<Rightarrow> str \<Rightarrow> error + response" where
  "classify model g inp_text =
     (case model of
        None \<Rightarrow> Inl ModelNotTrained
      | Some m \<Rightarrow>
          let raw_text = inp_text;
              txt = normalize_text raw_text;
              labels = classes m;
              probs = predict_proba m txt
          in bind (model_scores labels probs) (\<lambda>scores.
             let found_all = analyze_patterns_all txt
             in bind (model_top scores) (\<lambda>top0.
                bind (dict_item scores top0) (\<lambda>conf0.
                bind (lexicon_override top0 conf0 scores found_all) (\<lambda>(top1, conf1).
                let found_top = dict_get found_all top1 [];
                    all_kws = map lower (keywords_lex (dict_get ARCHETYPES top1 empty_lexicon));
                    missing = take 10 (filter (\<lambda>w. w \<notin> set found_top) all_kws)
                in bind (rewrite g raw_text top1 (ustr ''Your brand'')) (\<lambda>(ex, g).
                   Inr \<lparr>label = top1,
                        confidence = round4 conf1,
                        scores = top3_scores scores,
                        patterns_found = found_top,
                        patterns_missing = missing,
                        patterns_found_all = found_all,
                        suggestions =
                          [if missing \<noteq> []
                           then ustr ''Use words like: '' @ join (ustr '', '') (take 5 missing)
                           else ustr ''Nice coverage of key words.'',
                           ustr ''Use strong, direct verbs; cut corporate jargon.''],
                        example_rewrite = ex\<rparr>))))))"

section \<open>Notions used in the statements\<close>

text \<open>The match count of a label in a match result: the number of matched keywords listed
  for it, 0 for a label without an entry.\<close>

definition match_count :: "(str, str list) dict \<Rightarrow> str \<Rightarrow> nat" where
  "match_count found k = length (dict_get found k [])"

text \<open>The override condition in the words of the specification: \<open>strong\<close>, then \<open>margin\<close> or
  \<open>lowConfidence\<close>, then \<open>lexLabel\<close> differing from \<open>top\<close>.\<close>

definition override_fires :: "(str, str list) dict \<Rightarrow> str \<Rightarrow> rat \<Rightarrow> str \<Rightarrow> bool" where
  "override_fires found top0 conf0 ll \<longleftrightarrow>
     2 \<le> match_count found ll
     \<and> (match_count found top0 + 2 \<le> match_count found ll \<or> conf0 < 55 / 100)
     \<and> ll \<noteq> top0"

text \<open>Rounding to 4 decimal places, said without the rounding function: \<open>y\<close> is a multiple of
  \<open>1/10000\<close>, and no multiple of \<open>1/10000\<close> is nearer to \<open>x\<close>.\<close>

definition is_round4 :: "rat \<Rightarrow> rat \<Rightarrow> bool" where
  "is_round4 y x \<longleftrightarrow> (\<exists>k::int. y = of_int k / 10000) \<and> \<bar>y - x\<bar> \<le> 1 / 20000"

text \<open>A token is a non-empty string without white space, as \<open>str.split\<close> returns them.\<close>

definition is_token :: "str \<Rightarrow> bool" where
  "is_token t \<longleftrightarrow> t \<noteq> [] \<and> list_all (\<lambda>c. \<not> isspace c) t"

text \<open>A template that \<open>rewrite\<close> can render: \<open>format\<close> succeeds whatever the five values.\<close>

definition formats_ok :: "str \<Rightarrow> bool" where
  "formats_ok t \<longleftrightarrow>
     (\<forall>b v v2 v3 bf. \<exists>s. format_fields t
        [(ustr ''brand'', b), (ustr ''verb'', v), (ustr ''verb2'', v2), (ustr ''verb3'', v3),
         (ustr ''benefit'', bf)] = Inr s)"

text \<open>The fields of a response that make up the decision; \<open>example_rewrite\<close> and the
  suggestions are left out.\<close>

definition decision_of :: "response \<Rightarrow> str \<times> rat \<times> str list \<times> str list \<times> (str, rat) dict" where
  "decision_of r = (label r, confidence r, patterns_found r, patterns_missing r, scores r)"

text \<open>Steps 5 to 7 of \<open>classify\<close> as one function of the score dictionary, the match
  result, the label and confidence that step 4 leaves, and the example sentence: the
  response that \<open>classify\<close> returns.\<close>

definition response_for ::
  "(str, rat) dict \<Rightarrow> (str, str list) dict \<Rightarrow> str \<Rightarrow> rat \<Rightarrow> str \<Rightarrow> response" where
  "response_for scs fa l c ex =
     (let found_top = dict_get fa l [];
          all_kws = map lower (keywords_lex (dict_get ARCHETYPES l empty_lexicon));
          missing = take 10 (filter (\<lambda>w. w \<notin> set found_top) all_kws)
      in \<lparr>label = l, confidence = round4 c, scores = top3_scores scs,
          patterns_found = found_top, patterns_missing = missing, patterns_found_all = fa,
          suggestions =
            [if missing \<noteq> []
             then ustr ''Use words like: '' @ join (ustr '', '') (take 5 missing)
             else ustr ''Nice coverage of key words.'',
             ustr ''Use strong, direct verbs; cut corporate jargon.''],
          example_rewrite = ex\<rparr>)"

text \<open>The registry with no match at all: every archetype name with the empty list.\<close>

definition no_matches :: "(str, str list) dict" where
  "no_matches = map (\<lambda>name. (name, [])) (dict_keys ARCHETYPES)"

subsection \<open>Example classifiers and texts\<close>

text \<open>A three-class model with the scores of the specification's first scenario (the label
  list in the sorted order that a fitted estimator reports), and a one-class model whose
  label is no archetype.\<close>

definition demo_probs :: "str \<Rightarrow> rat list" where
  "demo_probs t = [35 / 100, 25 / 100, 40 / 100]"

definition demo_model :: classifier where
  "demo_model = \<lparr>classes = [ustr ''Caregiver'', ustr ''Explorer'', ustr ''Rebel''],
     predict_proba = demo_probs\<rparr>"

definition hero_probs :: "str \<Rightarrow> rat list" where
  "hero_probs t = [1]"

definition hero_model :: classifier where
  "hero_model = \<lparr>classes = [ustr ''Hero''], predict_proba = hero_probs\<rparr>"

definition demo_text :: str where
  "demo_text = ustr ''we care and protect your family''"

definition demo_scores :: "(str, rat) dict" where
  "demo_scores =
     [(ustr ''Caregiver'', 35 / 100), (ustr ''Explorer'', 25 / 100), (ustr ''Rebel'', 40 / 100)]"

text \<open>A three-class model whose scores are doubles exactly, with a best label of high
  confidence and the score \<open>7/128\<close> for the Caregiver.\<close>

definition blend_scores :: "(str, rat) dict" where
  "blend_scores =
     [(ustr ''Caregiver'', 7 / 128), (ustr ''Explorer'', 1 / 4), (ustr ''Rebel'', 89 / 128)]"

definition blend_probs :: "str \<Rightarrow> rat list" where
  "blend_probs t = map snd blend_scores"

definition blend_model :: classifier where
  "blend_model = \<lparr>classes = map fst blend_scores, predict_proba = blend_probs\<rparr>"

text \<open>A three-class model with two equal scores.\<close>

definition tie_scores :: "(str, rat) dict" where
  "tie_scores =
     [(ustr ''Caregiver'', 1 / 4), (ustr ''Explorer'', 1 / 4), (ustr ''Rebel'', 1 / 2)]"

definition tie_probs :: "str \<Rightarrow> rat list" where
  "tie_probs t = map snd tie_scores"

definition tie_model :: classifier where
  "tie_model = \<lparr>classes = map fst tie_scores, predict_proba = tie_probs\<rparr>"

text \<open>An archetype with word swaps and no templates, as the fallback of \<open>rewrite\<close> expects.\<close>

definition plain_lexicon :: lexicon where
  "plain_lexicon = \<lparr>keywords_lex = [ustr ''plain''],
     replace = [(ustr ''features'', ustr ''parts'')],
     templates = [], verbs = [], verbs2 = [], verbs3 = [], benefits = []\<rparr>"

section \<open>Properties of dictionaries\<close>

lemma dict_set_fresh: "k \<notin> fst ` set d \<Longrightarrow> dict_set d k v = d @ [(k, v)]"
  by (induction d) auto

lemma fold_dict_set_distinct:
  "distinct (map fst kvs) \<Longrightarrow> fst ` set kvs \<inter> fst ` set acc = {} \<Longrightarrow>
   fold (\<lambda>(k, v) d. dict_set d k v) kvs acc = acc @ kvs"
proof (induction kvs arbitrary: acc)
  case Nil
  then show ?case by simp
next
  case (Cons kv kvs)
  obtain k v where kv: "kv = (k, v)" by (cases kv)
  from Cons.prems have fresh: "k \<notin> fst ` set acc" by (auto simp: kv)
  have "fst ` set kvs \<inter> fst ` set (acc @ [(k, v)]) = {}"
    using Cons.prems by (auto simp: kv)
  with Cons.IH[of "acc @ [(k, v)]"] Cons.prems
  have "fold (\<lambda>(k, v) d. dict_set d k v) kvs (acc @ [(k, v)]) = (acc @ [(k, v)]) @ kvs"
    by simp
  then show ?case by (simp add: kv dict_set_fresh[OF fresh])
qed

lemma dict_of_items_distinct: "distinct (map fst kvs) \<Longrightarrow> dict_of_items kvs = kvs"
  using fold_dict_set_distinct[of kvs "[]"] by (simp add: dict_of_items_def)

lemma keys_dict_set: "fst ` set (dict_set d k v) = insert k (fst ` set d)"
  by (induction d) (force split: if_splits)+

lemma dict_set_keys_distinct: "distinct (map fst d) \<Longrightarrow> distinct (map fst (dict_set d k v))"
proof (induction d)
  case Nil
  then show ?case by simp
next
  case (Cons a d)
  obtain k' v' where a: "a = (k', v')" by (cases a)
  show ?case
  proof (cases "k' = k")
    case True
    with Cons.prems show ?thesis by (simp add: a)
  next
    case False
    have "k' \<notin> fst ` set (dict_set d k v)"
      using Cons.prems False by (simp add: keys_dict_set a)
    with Cons False show ?thesis by (simp add: a)
  qed
qed

lemma set_dict_set: "set (dict_set d k v) \<subseteq> insert (k, v) (set d)"
  by (induction d) (auto split: if_splits)

lemma fold_dict_set_props:
  "distinct (map fst acc) \<Longrightarrow>
   distinct (map fst (fold (\<lambda>(k, v) d. dict_set d k v) kvs acc))
   \<and> set (fold (\<lambda>(k, v) d. dict_set d k v) kvs acc) \<subseteq> set acc \<union> set kvs
   \<and> fst ` set (fold (\<lambda>(k, v) d. dict_set d k v) kvs acc) = fst ` set acc \<union> fst ` set kvs"
proof (induction kvs arbitrary: acc)
  case Nil
  then show ?case by simp
next
  case (Cons kv kvs)
  obtain k v where kv: "kv = (k, v)" by (cases kv)
  have d: "distinct (map fst (dict_set acc k v))"
    using Cons.prems by (rule dict_set_keys_distinct)
  from Cons.IH[OF d] set_dict_set[of acc k v] keys_dict_set[of acc k v]
  show ?case by (auto simp: kv)
qed

lemma dict_of_items_keys_distinct: "distinct (map fst (dict_of_items kvs))"
  using fold_dict_set_props[of "[]" kvs] by (simp add: dict_of_items_def)

lemma dict_of_items_subset: "set (dict_of_items kvs) \<subseteq> set kvs"
  using fold_dict_set_props[of "[]" kvs] by (simp add: dict_of_items_def)

lemma dict_of_items_keys: "fst ` set (dict_of_items kvs) = fst ` set kvs"
  using fold_dict_set_props[of "[]" kvs] by (simp add: dict_of_items_def)

lemma fold_dict_set_map:
  "fold (\<lambda>(name, lex) out. dict_set out name (h lex)) xs acc
   = fold (\<lambda>(k, v) d. dict_set d k v) (map (\<lambda>(name, lex). (name, h lex)) xs) acc"
  by (induction xs arbitrary: acc) (auto simp: case_prod_beta)

section \<open>Properties of \<open>max\<close>\<close>

lemma fold_max_mem:
  fixes f :: "'a \<Rightarrow> 'b::linorder"
  shows "fold (\<lambda>y best. if f best < f y then y else best) xs x \<in> insert x (set xs)"
  by (induction xs arbitrary: x) (auto split: if_splits)

lemma max_key_Inr: "xs \<noteq> [] \<Longrightarrow> \<exists>x. max_key xs f = Inr x \<and> x \<in> set xs"
  using fold_max_mem[of f "tl xs" "hd xs"] by (cases xs) auto

lemma max_key_mem: "max_key xs f = Inr x \<Longrightarrow> x \<in> set xs"
  using fold_max_mem[of f "tl xs" "hd xs"] by (cases xs) auto

lemma fold_max_ge:
  fixes f :: "'a \<Rightarrow> 'b::linorder"
  shows "f x \<le> f (fold (\<lambda>y best. if f best < f y then y else best) xs x)"
proof (induction xs arbitrary: x)
  case Nil
  show ?case by simp
next
  case (Cons a xs)
  show ?case
  proof (cases "f x < f a")
    case True
    then have "f x \<le> f a" by simp
    also have "\<dots> \<le> f (fold (\<lambda>y best. if f best < f y then y else best) xs a)"
      by (rule Cons.IH)
    finally show ?thesis using True by simp
  next
    case False
    then show ?thesis using Cons.IH[of x] by simp
  qed
qed

lemma fold_max_ge_all:
  fixes f :: "'a \<Rightarrow> 'b::linorder"
  shows "y \<in> set xs \<Longrightarrow> f y \<le> f (fold (\<lambda>y best. if f best < f y then y else best) xs x)"
proof (induction xs arbitrary: x)
  case Nil
  then show ?case by simp
next
  case (Cons a xs)
  show ?case
  proof (cases "y = a")
    case True
    show ?thesis
    proof (cases "f x < f a")
      case True
      then show ?thesis using fold_max_ge[of f a xs] \<open>y = a\<close> by simp
    next
      case False
      then have "f a \<le> f x" by simp
      also have "\<dots> \<le> f (fold (\<lambda>y best. if f best < f y then y else best) xs x)"
        by (rule fold_max_ge)
      finally show ?thesis using False \<open>y = a\<close> by simp
    qed
  next
    case False
    with Cons.prems have "y \<in> set xs" by simp
    then show ?thesis using Cons.IH by simp
  qed
qed

lemma max_key_greatest: "max_key xs f = Inr x \<Longrightarrow> y \<in> set xs \<Longrightarrow> f y \<le> f x"
  using fold_max_ge[of f "hd xs" "tl xs"] fold_max_ge_all[of y "tl xs" f "hd xs"]
  by (cases xs) auto

section \<open>Properties of rounding to four places\<close>

lemma round_half_even_of_int: "round_half_even (of_int n) = n"
  by (simp add: round_half_even_def)

lemma round_half_even_bounds: "\<lfloor>y\<rfloor> \<le> round_half_even y \<and> round_half_even y \<le> \<lfloor>y\<rfloor> + 1"
  by (simp add: round_half_even_def Let_def)

lemma round_half_even_mono: "a \<le> b \<Longrightarrow> round_half_even a \<le> round_half_even b"
proof -
  assume ab: "a \<le> b"
  have fl: "\<lfloor>a\<rfloor> \<le> \<lfloor>b\<rfloor>" using ab by (rule floor_mono)
  show ?thesis
  proof (cases "\<lfloor>a\<rfloor> = \<lfloor>b\<rfloor>")
    case True
    then have "a - of_int \<lfloor>a\<rfloor> \<le> b - of_int \<lfloor>b\<rfloor>" using ab by simp
    then show ?thesis using True by (auto simp: round_half_even_def Let_def)
  next
    case False
    then have "\<lfloor>a\<rfloor> + 1 \<le> \<lfloor>b\<rfloor>" using fl by simp
    with round_half_even_bounds[of a] round_half_even_bounds[of b]
    show ?thesis by linarith
  qed
qed

lemma round4_of_int: "round4 (of_int n / 10000) = of_int n / 10000"
  by (simp add: round4_def round_half_even_of_int)

lemma round4_idem: "round4 (round4 x) = round4 x"
  unfolding round4_def[of x] by (rule round4_of_int)

lemma round4_mono: "x \<le> y \<Longrightarrow> round4 x \<le> round4 y"
proof -
  assume "x \<le> y"
  then have "x * 10000 \<le> y * 10000" by simp
  then have "round_half_even (x * 10000) \<le> round_half_even (y * 10000)"
    by (rule round_half_even_mono)
  then show ?thesis by (simp add: round4_def divide_right_mono)
qed

lemma round4_floor52: "52 / 100 \<le> x \<Longrightarrow> 52 / 100 \<le> round4 x"
proof -
  assume "52 / 100 \<le> x"
  then have "round4 (of_int 5200 / 10000) \<le> round4 x"
    by (intro round4_mono) simp
  then show ?thesis unfolding round4_of_int by simp
qed

section \<open>Properties of double rounding\<close>

lemma ilog2_bounds:
  "1 \<le> n \<Longrightarrow> \<exists>k. ilog2 n = int k \<and> 2 ^ k \<le> n \<and> n < 2 ^ Suc k"
proof (induction n rule: ilog2.induct)
  case (1 n)
  show ?case
  proof (cases "n < 2")
    case True
    with 1(2) have "n = 1" by simp
    then have "ilog2 n = int 0 \<and> 2 ^ 0 \<le> n \<and> n < 2 ^ Suc 0"
      by (simp add: ilog2.simps[of 1])
    then show ?thesis by blast
  next
    case False
    then have "1 \<le> n div 2" by simp
    with 1(1)[OF False] obtain k where ih: "ilog2 (n div 2) = int k"
      "2 ^ k \<le> n div 2" "n div 2 < 2 ^ Suc k"
      by blast
    from False have eq: "ilog2 n = int (Suc k)"
      by (simp add: ilog2.simps[of n] ih(1))
    have "2 * (n div 2) \<le> n" by simp
    with ih(2) have a: "2 ^ Suc k \<le> n" by simp
    have "n \<le> 2 * (n div 2) + 1" by simp
    with ih(3) have b: "n < 2 ^ Suc (Suc k)" by simp
    from eq a b show ?thesis by blast
  qed
qed

lemma exponent_bounds:
  assumes "0 < x"
  shows "2 powi exponent x \<le> x \<and> x < 2 powi (exponent x + 1)"
proof (cases "1 \<le> x")
  case True
  then have n: "1 \<le> \<lfloor>x\<rfloor>" by simp
  from ilog2_bounds[OF n] obtain k where k0: "ilog2 \<lfloor>x\<rfloor> = int k"
    and lo: "2 ^ k \<le> \<lfloor>x\<rfloor>" and hi: "\<lfloor>x\<rfloor> < 2 ^ Suc k"
    by blast
  have e: "exponent x = int k" using True k0 by (simp add: exponent_def)
  have "(2::rat) ^ k = of_int (2 ^ k)" by simp
  also have "\<dots> \<le> of_int \<lfloor>x\<rfloor>" using lo by (simp only: of_int_le_iff)
  also have "\<dots> \<le> x" by simp
  finally have a: "2 ^ k \<le> x" .
  from hi have "\<lfloor>x\<rfloor> + 1 \<le> 2 ^ Suc k" by simp
  then have "of_int (\<lfloor>x\<rfloor> + 1) \<le> (of_int (2 ^ Suc k) :: rat)" by (simp only: of_int_le_iff)
  moreover have "x < of_int (\<lfloor>x\<rfloor> + 1)" by linarith
  ultimately have b: "x < 2 ^ Suc k" by simp
  have "int k + 1 = int (Suc k)" by simp
  then have "2 powi (int k + 1) = (2::rat) ^ Suc k"
    by (simp only: power_int_of_nat)
  moreover have "2 powi (int k) = (2::rat) ^ k" by (simp only: power_int_of_nat)
  ultimately show ?thesis unfolding e using a b by simp
next
  case False
  with assms have x1: "x < 1" by simp
  let ?m = "\<lceil>1 / x\<rceil>"
  from assms x1 have "1 < 1 / x" by simp
  then have m2: "1 \<le> ?m - 1" by linarith
  from ilog2_bounds[OF m2] obtain j where j0: "ilog2 (?m - 1) = int j"
    and lo: "2 ^ j \<le> ?m - 1" and hi: "?m - 1 < 2 ^ Suc j"
    by blast
  have e: "exponent x = - int (Suc j)" using False j0 by (simp add: exponent_def)
  from hi have "?m \<le> 2 ^ Suc j" by simp
  then have "of_int ?m \<le> (of_int (2 ^ Suc j) :: rat)" by (simp only: of_int_le_iff)
  then have "of_int ?m \<le> (2::rat) ^ Suc j" by simp
  moreover have "1 / x \<le> of_int ?m" by (rule le_of_int_ceiling)
  ultimately have "1 / x \<le> 2 ^ Suc j" by (rule order_trans[rotated])
  with assms have a: "1 / 2 ^ Suc j \<le> x"
    by (simp add: field_simps)
  have "(of_int (2 ^ j) :: rat) \<le> of_int (?m - 1)" using lo by (simp only: of_int_le_iff)
  then have "(2::rat) ^ j \<le> of_int (?m - 1)" by simp
  moreover have "of_int (?m - 1) < 1 / x" by linarith
  ultimately have "2 ^ j < 1 / x" by (rule order_le_less_trans)
  with assms have b: "x < 1 / 2 ^ j" by (simp add: field_simps)
  have p1: "(2::rat) powi (- int (Suc j)) = 1 / 2 ^ Suc j"
    by (simp only: power_int_minus_divide power_int_of_nat)
  have "- int (Suc j) + 1 = - int j" by simp
  then have p2: "(2::rat) powi (- int (Suc j) + 1) = 1 / 2 ^ j"
    by (simp only: power_int_minus_divide power_int_of_nat)
  from a b show ?thesis unfolding e p1 p2 by simp
qed

lemma exponent_unique:
  assumes "0 < x" and "2 powi e \<le> x" and "x < 2 powi (e + 1)"
  shows "exponent x = e"
proof -
  from exponent_bounds[OF assms(1)]
  have a: "2 powi exponent x \<le> x" and b: "x < 2 powi (exponent x + 1)" by simp_all
  have "(2::rat) powi exponent x < 2 powi (e + 1)" using a assms(3) by simp
  then have "exponent x < e + 1"
    by (metis linorder_not_less one_le_numeral power_int_increasing)
  moreover have "(2::rat) powi e < 2 powi (exponent x + 1)" using b assms(2) by simp
  then have "e < exponent x + 1"
    by (metis linorder_not_less one_le_numeral power_int_increasing)
  ultimately show ?thesis by simp
qed

lemma exponent_mono:
  assumes "0 < x" and "x \<le> y"
  shows "exponent x \<le> exponent y"
proof -
  from assms have y: "0 < y" by simp
  have "(2::rat) powi exponent x \<le> x" using exponent_bounds[OF assms(1)] by simp
  also have "\<dots> \<le> y" by (rule assms(2))
  also have "\<dots> < 2 powi (exponent y + 1)" using exponent_bounds[OF y] by simp
  finally have "exponent x < exponent y + 1"
    by (metis linorder_not_less one_le_numeral power_int_increasing)
  then show ?thesis by simp
qed

lemma round_half_even_nonneg: "0 \<le> y \<Longrightarrow> 0 \<le> round_half_even y"
  using round_half_even_bounds[of y] by (simp add: order_trans[of 0 "\<lfloor>y\<rfloor>"])

lemma dbl_eval:
  assumes "0 < x" and "2 powi e \<le> x" and "x < 2 powi (e + 1)" and "- 1022 \<le> e"
  shows "dbl x = of_int (round_half_even (x / 2 powi (e - 52))) * 2 powi (e - 52)"
proof -
  from assms(1-3) have "exponent \<bar>x\<bar> = e" by (simp add: exponent_unique)
  with assms(1,4) show ?thesis by (simp add: dbl_def Let_def max_def)
qed

lemma dbl_nonneg: "0 \<le> x \<Longrightarrow> 0 \<le> dbl x"
  by (simp add: dbl_def Let_def round_half_even_nonneg)

lemma dbl_mono_pos:
  assumes "0 \<le> x" and "x \<le> y"
  shows "dbl x \<le> dbl y"
proof (cases "x = 0")
  case True
  with assms show ?thesis using dbl_nonneg[of y] by (simp add: dbl_def)
next
  case False
  with assms have x: "0 < x" and y: "0 < y" by simp_all
  let ?ex = "max (exponent x) (- 1022)" and ?ey = "max (exponent y) (- 1022)"
  let ?qx = "(2::rat) powi (?ex - 52)" and ?qy = "(2::rat) powi (?ey - 52)"
  have dx: "dbl x = of_int (round_half_even (x / ?qx)) * ?qx"
    using x by (simp add: dbl_def Let_def)
  have dy: "dbl y = of_int (round_half_even (y / ?qy)) * ?qy"
    using y by (simp add: dbl_def Let_def)
  have qx: "0 < ?qx" and qy: "0 < ?qy" by (simp_all add: zero_less_power_int)
  have le: "?ex \<le> ?ey" using exponent_mono[OF x assms(2)] by simp
  show ?thesis
  proof (cases "?ex = ?ey")
    case True
    then have "?qx = ?qy" by simp
    moreover have "x / ?qy \<le> y / ?qy" using assms(2) qy by (simp add: divide_right_mono)
    then have "round_half_even (x / ?qy) \<le> round_half_even (y / ?qy)"
      by (rule round_half_even_mono)
    ultimately show ?thesis unfolding dx dy using qy by (simp add: mult_right_mono)
  next
    case False
    with le have lt: "?ex < ?ey" by (metis order.not_eq_order_implies_strict)
    have ey: "?ey = exponent y"
    proof (rule ccontr)
      assume "?ey \<noteq> exponent y"
      then have "?ey = - 1022" by (simp add: max_def split: if_splits)
      moreover have "- 1022 \<le> ?ex" by simp
      ultimately show False using lt by linarith
    qed
    have "x < 2 powi (exponent x + 1)" using exponent_bounds[OF x] by simp
    also have "\<dots> \<le> 2 powi (?ex + 1)" by (rule power_int_increasing) simp_all
    finally have xb: "x < 2 powi (?ex + 1)" .
    have "2 powi (?ex + 1) = ?qx * 2 ^ 53"
    proof -
      have "?ex + 1 = (?ex - 52) + 53" by simp
      then have "(2::rat) powi (?ex + 1) = 2 powi (?ex - 52) * 2 powi 53"
        by (simp only: power_int_add[of "2::rat", simplified])
      then show ?thesis by simp
    qed
    with xb qx have "x / ?qx < 2 ^ 53" by (simp add: field_simps)
    then have "x / ?qx \<le> of_int (2 ^ 53)" by simp
    then have "round_half_even (x / ?qx) \<le> round_half_even (of_int (2 ^ 53))"
      by (rule round_half_even_mono)
    then have "round_half_even (x / ?qx) \<le> 2 ^ 53" by (simp only: round_half_even_of_int)
    then have "(of_int (round_half_even (x / ?qx)) :: rat) \<le> of_int (2 ^ 53)"
      by (simp only: of_int_le_iff)
    then have "dbl x \<le> 2 ^ 53 * ?qx" unfolding dx using qx by (simp add: mult_right_mono)
    also have "\<dots> = 2 powi (?ex + 1)" using \<open>2 powi (?ex + 1) = ?qx * 2 ^ 53\<close> by simp
    also have "\<dots> \<le> 2 powi ?ey"
    proof (rule power_int_increasing)
      show "?ex + 1 \<le> ?ey" using lt by linarith
    qed simp
    finally have ux: "dbl x \<le> 2 powi ?ey" .
    have "2 powi ?ey \<le> y" unfolding ey using exponent_bounds[OF y] by simp
    have "2 powi ?ey = ?qy * 2 ^ 52"
    proof -
      have "?ey = (?ey - 52) + 52" by simp
      then have "(2::rat) powi ?ey = 2 powi (?ey - 52) * 2 powi 52"
        by (metis power_int_add[of "2::rat", simplified])
      then show ?thesis by simp
    qed
    with \<open>2 powi ?ey \<le> y\<close> qy have "of_int (2 ^ 52) \<le> y / ?qy" by (simp add: field_simps)
    then have "round_half_even (of_int (2 ^ 52)) \<le> round_half_even (y / ?qy)"
      by (rule round_half_even_mono)
    then have "2 ^ 52 \<le> round_half_even (y / ?qy)" by (simp only: round_half_even_of_int)
    then have "(of_int (2 ^ 52) :: rat) \<le> of_int (round_half_even (y / ?qy))"
      by (simp only: of_int_le_iff)
    then have "2 ^ 52 * ?qy \<le> dbl y" unfolding dy using qy by (simp add: mult_right_mono)
    with \<open>2 powi ?ey = ?qy * 2 ^ 52\<close> have "2 powi ?ey \<le> dbl y" by (simp add: mult.commute)
    with ux show ?thesis by simp
  qed
qed

subsection \<open>Evaluating the rounding functions\<close>

lemma round_half_even_near: "\<bar>of_int (round_half_even y) - y\<bar> \<le> 1 / 2"
  unfolding round_half_even_def Let_def by (auto simp: abs_if) linarith+

lemma round_half_even_eq:
  assumes "of_int n - 1 / 2 < y" and "y < of_int n + 1 / 2"
  shows "round_half_even y = n"
proof -
  have "\<bar>(of_int (round_half_even y) :: rat) - of_int n\<bar> < 1"
    using round_half_even_near[of y] assms by linarith
  then have "\<bar>(of_int (round_half_even y - n) :: rat)\<bar> < of_int 1"
    by simp
  then have "\<bar>round_half_even y - n\<bar> < 1"
    by (simp only: of_int_abs[symmetric] of_int_less_iff)
  then show ?thesis by simp
qed

lemma round_half_even_tie:
  assumes "y = of_int n + 1 / 2" and "even n"
  shows "round_half_even y = n"
proof -
  have "\<lfloor>y\<rfloor> = n" unfolding assms(1) by linarith
  then show ?thesis using assms by (simp add: round_half_even_def Let_def)
qed

lemma dbl_at:
  assumes "0 < x" and "2 powi e \<le> x" and "x < 2 powi (e + 1)" and "- 1022 \<le> e"
    and "of_int n - 1 / 2 < x / 2 powi (e - 52)" and "x / 2 powi (e - 52) < of_int n + 1 / 2"
  shows "dbl x = of_int n * 2 powi (e - 52)"
  unfolding dbl_eval[OF assms(1-4)] round_half_even_eq[OF assms(5,6)] ..

lemma round4_at:
  assumes "of_int n - 1 / 2 < x * 10000" and "x * 10000 < of_int n + 1 / 2"
  shows "round4 x = of_int n / 10000"
  unfolding round4_def round_half_even_eq[OF assms] ..

subsection \<open>The blend of the override\<close>

lemma dbl_052: "dbl (52 / 100) = 4683743612465316 / 2 ^ 53"
  using dbl_at[of "52 / 100" "- 1" 4683743612465316]
  by (simp add: power_int_minus_divide)

lemma dbl_048: "dbl (48 / 100) = 8646911284551352 / 2 ^ 54"
  using dbl_at[of "48 / 100" "- 2" 8646911284551352]
  by (simp add: power_int_minus_divide)

lemma blend_floor:
  assumes "0 \<le> s"
  shows "52 / 100 \<le> round4 (blend s)"
proof -
  have "0 \<le> dbl (48 / 100)" by (rule dbl_nonneg) simp
  with assms have "0 \<le> dbl (48 / 100) * s" by simp
  then have "0 \<le> fmul (dbl (48 / 100)) s" unfolding fmul_def by (rule dbl_nonneg)
  then have "dbl (52 / 100) \<le> dbl (52 / 100) + fmul (dbl (48 / 100)) s" by simp
  moreover have "0 \<le> dbl (52 / 100)" by (rule dbl_nonneg) simp
  ultimately have "dbl (dbl (52 / 100)) \<le> blend s"
    unfolding blend_def fadd_def by (intro dbl_mono_pos)
  moreover have "dbl (4683743612465316 / 2 ^ 53) = 4683743612465316 / 2 ^ 53"
    using dbl_at[of "4683743612465316 / 2 ^ 53" "- 1" 4683743612465316]
    by (simp add: power_int_minus_divide)
  ultimately have "52 / 100 \<le> blend s" unfolding dbl_052 by simp
  then show ?thesis by (rule round4_floor52)
qed

lemma blend_7_128: "blend (7 / 128) = 4920182592902267 / 2 ^ 53"
proof -
  have m: "dbl (8646911284551352 / 2 ^ 54 * (7 / 128)) = 7566047373982433 / 2 ^ 58"
    using dbl_at[of "8646911284551352 / 2 ^ 54 * (7 / 128)" "- 6" 7566047373982433]
    by (simp add: power_int_minus_divide)
  have a: "dbl (4683743612465316 / 2 ^ 53 + 7566047373982433 / 2 ^ 58)
           = 4920182592902267 / 2 ^ 53"
    using dbl_at[of "4683743612465316 / 2 ^ 53 + 7566047373982433 / 2 ^ 58" "- 1"
        4920182592902267]
    by (simp add: power_int_minus_divide)
  show ?thesis unfolding blend_def fadd_def fmul_def dbl_048 dbl_052 m a ..
qed

lemma round4_blend_7_128: "round4 (blend (7 / 128)) = 5463 / 10000"
  unfolding blend_7_128 using round4_at[of 5463 "4920182592902267 / 2 ^ 53"] by simp

text \<open>In exact arithmetic the same score gives an exact tie, which rounds to the even
  multiple below; the sum in double arithmetic lies above the tie.\<close>

lemma round4_exact_7_128: "round4 (52 / 100 + 48 / 100 * (7 / 128)) = 5462 / 10000"
proof -
  have "round_half_even ((52 / 100 + 48 / 100 * (7 / 128)) * 10000) = 5462"
    by (rule round_half_even_tie) simp_all
  then show ?thesis by (simp add: round4_def)
qed

subsection \<open>Rounding to four places\<close>

lemma round4_is_round4: "is_round4 (round4 x) x"
proof -
  have "\<bar>of_int (round_half_even (x * 10000)) - x * 10000\<bar> \<le> 1 / 2"
    by (rule round_half_even_near)
  then have "\<bar>round4 x - x\<bar> \<le> 1 / 20000"
    unfolding round4_def by (simp add: abs_if field_simps split: if_splits)
  then show ?thesis unfolding is_round4_def round4_def by blast
qed

section \<open>Properties of \<open>split\<close> and \<open>join\<close>\<close>

lemma split_Nil [simp]: "split [] = []"
  by (simp add: split.simps)

lemma split_tokens: "t \<in> set (split s) \<Longrightarrow> is_token t"
proof (induction s rule: split.induct)
  case (1 s)
  show ?case
  proof (cases "dropWhile isspace s")
    case Nil
    with "1.prems" show ?thesis by (simp add: split.simps[of s])
  next
    case (Cons c cs)
    have hd: "\<not> isspace c"
      using hd_dropWhile[of isspace s] Cons by simp
    from "1.prems" Cons
    have "t = takeWhile (\<lambda>d. \<not> isspace d) (c # cs)
          \<or> t \<in> set (split (dropWhile (\<lambda>d. \<not> isspace d) (c # cs)))"
      by (simp add: split.simps[of s])
    then show ?thesis
    proof
      assume t: "t = takeWhile (\<lambda>d. \<not> isspace d) (c # cs)"
      have "list_all (\<lambda>c. \<not> isspace c) t"
        unfolding t list_all_iff using set_takeWhileD by fastforce
      moreover have "t \<noteq> []" using hd by (simp add: t)
      ultimately show ?thesis by (simp add: is_token_def)
    next
      assume "t \<in> set (split (dropWhile (\<lambda>d. \<not> isspace d) (c # cs)))"
      then show ?thesis using "1.IH"[OF Cons] by simp
    qed
  qed
qed

lemma split_space_cons: "isspace c \<Longrightarrow> split (c # s) = split s"
  by (simp add: split.simps[of "c # s"] split.simps[of s])

lemma split_token_append:
  assumes "is_token t" and "rest = [] \<or> isspace (hd rest)"
  shows "split (t @ rest) = t # split rest"
proof -
  from assms(1) obtain c cs where t: "t = c # cs" and c: "\<not> isspace c"
    and cs: "\<forall>x \<in> set cs. \<not> isspace x"
    by (cases t) (auto simp: is_token_def list_all_iff)
  have all: "\<forall>x \<in> set t. \<not> isspace x" using c cs t by simp
  have dw: "dropWhile isspace (t @ rest) = t @ rest" using c t by simp
  have tw: "takeWhile (\<lambda>d. \<not> isspace d) (t @ rest) = t"
  proof (cases rest)
    case Nil
    then show ?thesis using all by (simp add: takeWhile_eq_all_conv)
  next
    case (Cons r rs)
    with assms(2) have "isspace r" by simp
    then show ?thesis using all Cons by (simp add: takeWhile_append2 takeWhile_eq_all_conv takeWhile_tail)
  qed
  have dw2: "dropWhile (\<lambda>d. \<not> isspace d) (t @ rest) = rest"
  proof (cases rest)
    case Nil
    then show ?thesis using all by simp
  next
    case (Cons r rs)
    with assms(2) have "isspace r" by simp
    then show ?thesis using all Cons by (simp add: dropWhile_append2)
  qed
  show ?thesis
    using dw tw dw2 by (subst split.simps) (simp add: t)
qed

lemma isspace_32 [simp]: "isspace 32"
  by (simp add: isspace_def)

lemma split_join:
  "list_all is_token ts \<Longrightarrow> split (join [32] ts) = ts"
proof (induction ts)
  case Nil
  then show ?case by simp
next
  case (Cons x xs)
  then have x: "is_token x" and rest: "list_all is_token xs" by simp_all
  show ?case
  proof (cases xs)
    case Nil
    then show ?thesis using split_token_append[OF x, of "[]"] by simp
  next
    case (Cons y ys)
    have "split (x @ 32 # join [32] xs) = x # split (32 # join [32] xs)"
      using split_token_append[OF x, of "32 # join [32] xs"] by simp
    also have "split (32 # join [32] xs) = split (join [32] xs)"
      by (rule split_space_cons) simp
    also have "\<dots> = xs" using Cons.IH rest by simp
    finally show ?thesis using Cons by simp
  qed
qed

lemma take1_drop: "i < length xs \<Longrightarrow> take 1 (drop i xs) = [xs ! i]"
  using Cons_nth_drop_Suc[of i xs] by (metis One_nat_def take0 take_Suc_Cons)

section \<open>Properties of the n-gram set\<close>

lemma ngram_set_iff:
  "g \<in> ngram_set text \<longleftrightarrow>
     (\<exists>i n. 1 \<le> n \<and> n \<le> 3 \<and> i + n \<le> length (split text)
            \<and> g = join [32] (take n (drop i (split text))))"
  (is "?L \<longleftrightarrow> ?R")
proof
  define toks where "toks = split text"
  assume ?L
  then consider (u) "g \<in> set toks"
    | (b) i where "i < length toks - 1" "g = join [32] (take 2 (drop i toks))"
    | (t) i where "i < length toks - 2" "g = join [32] (take 3 (drop i toks))"
    by (auto simp: ngram_set_def Let_def toks_def)
  then show ?R
  proof cases
    case u
    then obtain i where i: "i < length toks" "g = toks ! i"
      by (auto simp: in_set_conv_nth)
    then have "take 1 (drop i toks) = [g]"
      using take1_drop[of i toks] by simp
    with i show ?thesis
      by (intro exI[of _ i] exI[of _ 1]) (simp add: toks_def)
  next
    case b
    then show ?thesis
      by (intro exI[of _ i] exI[of _ 2]) (simp add: toks_def)
  next
    case t
    then show ?thesis
      by (intro exI[of _ i] exI[of _ 3]) (simp add: toks_def)
  qed
next
  define toks where "toks = split text"
  assume ?R
  then obtain i n where n: "1 \<le> n" "n \<le> 3" and i: "i + n \<le> length toks"
    and g: "g = join [32] (take n (drop i toks))"
    by (auto simp: toks_def)
  from n consider "n = 1" | "n = 2" | "n = 3" by linarith
  then show ?L
  proof cases
    case 1
    with i have il: "i < length toks" by simp
    then have "take 1 (drop i toks) = [toks ! i]"
      by (rule take1_drop)
    with g 1 il show ?thesis
      by (simp add: ngram_set_def Let_def toks_def[symmetric])
  next
    case 2
    with i have "i < length toks - 1" by simp
    with g 2 show ?thesis
      by (simp add: ngram_set_def Let_def toks_def[symmetric])
  next
    case 3
    with i have "i < length toks - 2" by simp
    with g 3 show ?thesis
      by (simp add: ngram_set_def Let_def toks_def[symmetric])
  qed
qed

lemma ngram_token_count:
  assumes "g \<in> ngram_set text"
  shows "1 \<le> length (split g) \<and> length (split g) \<le> 3"
proof -
  from assms obtain i n where n: "1 \<le> n" "n \<le> 3" and i: "i + n \<le> length (split text)"
    and g: "g = join [32] (take n (drop i (split text)))"
    by (auto simp: ngram_set_iff)
  have "list_all is_token (take n (drop i (split text)))"
    unfolding list_all_iff
    using split_tokens[of _ "text"] by (meson in_set_dropD in_set_takeD)
  then have "split g = take n (drop i (split text))"
    unfolding g by (rule split_join)
  with n i show ?thesis by simp
qed

lemma ngram_set_empty: "split text = [] \<Longrightarrow> ngram_set text = {}"
  by (simp add: ngram_set_def)

section \<open>Normalised texts and their tokens\<close>

lemma all_dropWhile: "(\<forall>d \<in> set (dropWhile P xs). P d) \<longleftrightarrow> (\<forall>d \<in> set xs. P d)"
  by (induction xs) auto

lemma strip_Nil: "strip t = [] \<longleftrightarrow> (\<forall>c \<in> set t. isspace c)"
proof -
  have "strip t = [] \<longleftrightarrow> (\<forall>c \<in> set (rev (dropWhile isspace t)). isspace c)"
    by (simp add: strip_def dropWhile_eq_Nil_conv)
  also have "\<dots> \<longleftrightarrow> (\<forall>c \<in> set (dropWhile isspace t). isspace c)" by simp
  also have "\<dots> \<longleftrightarrow> (\<forall>c \<in> set t. isspace c)" by (rule all_dropWhile)
  finally show ?thesis .
qed

lemma all_sub_spaces: "(\<forall>c \<in> set (sub_spaces s). isspace c) \<longleftrightarrow> (\<forall>c \<in> set s. isspace c)"
proof (induction s rule: sub_spaces.induct)
  case 1
  show ?case by simp
next
  case (2 c cs)
  show ?case using 2 all_dropWhile[of isspace cs] by (auto simp: isspace_32)
qed

lemma split_all_space: "(\<forall>c \<in> set s. isspace c) \<Longrightarrow> split s = []"
  by (simp add: split.simps[of s] dropWhile_eq_Nil_conv[THEN iffD2])

lemma split_eq_Nil: "split s = [] \<longleftrightarrow> (\<forall>c \<in> set s. isspace c)"
proof
  assume "split s = []"
  then have "dropWhile isspace s = []"
    by (simp add: split.simps[of s] split: list.splits)
  then show "\<forall>c \<in> set s. isspace c" by (simp add: dropWhile_eq_Nil_conv)
qed (rule split_all_space)

lemma sub_spaces_token:
  "(\<forall>x \<in> set tok. \<not> isspace x) \<Longrightarrow> sub_spaces (tok @ rest) = tok @ sub_spaces rest"
  by (induction tok) simp_all

lemma rstrip_append:
  "rev (dropWhile isspace (rev (a @ b)))
   = (if \<forall>x \<in> set b. isspace x then rev (dropWhile isspace (rev a))
      else a @ rev (dropWhile isspace (rev b)))"
  by (simp add: dropWhile_append)

lemma rstrip_token:
  assumes "\<forall>x \<in> set tok. \<not> isspace x"
  shows "rev (dropWhile isspace (rev tok)) = tok"
proof (cases "rev tok")
  case Nil
  then show ?thesis by simp
next
  case (Cons c cs)
  then have "c \<in> set tok" by (metis list.set_intros(1) set_rev)
  with assms have "\<not> isspace c" by simp
  with Cons have "dropWhile isspace (rev tok) = rev tok" by simp
  then show ?thesis by simp
qed

lemma strip_sub_spaces_join: "strip (sub_spaces s) = join [32] (split s)"
proof (induction s rule: split.induct)
  case (1 s)
  show ?case
  proof (cases "dropWhile isspace s")
    case Nil
    then have all: "\<forall>c \<in> set s. isspace c" by (simp add: dropWhile_eq_Nil_conv)
    then have "strip (sub_spaces s) = []" by (simp only: strip_Nil all_sub_spaces)
    moreover have "split s = []" using all by (rule split_all_space)
    ultimately show ?thesis by simp
  next
    case (Cons c cs)
    let ?u = "c # cs"
    let ?tok = "takeWhile (\<lambda>d. \<not> isspace d) ?u"
    let ?rest = "dropWhile (\<lambda>d. \<not> isspace d) ?u"
    have c: "\<not> isspace c" using hd_dropWhile[of isspace s] Cons by simp
    have tok: "\<forall>x \<in> set ?tok. \<not> isspace x" by (auto dest: set_takeWhileD)
    have tok_ne: "?tok \<noteq> []" using c by simp
    have sp: "split s = ?tok # split ?rest" by (simp add: split.simps[of s] Cons)
    have ih: "strip (sub_spaces ?rest) = join [32] (split ?rest)"
      using "1.IH"[OF Cons] .
    have lead: "dropWhile isspace (sub_spaces s) = sub_spaces ?u"
    proof (cases s)
      case Nil
      with Cons show ?thesis by simp
    next
      case (Cons d ds)
      show ?thesis
      proof (cases "isspace d")
        case True
        with Cons \<open>dropWhile isspace s = c # cs\<close> have "dropWhile isspace ds = c # cs" by simp
        with True Cons c show ?thesis by simp
      next
        case False
        with Cons \<open>dropWhile isspace s = c # cs\<close> have "s = c # cs" by simp
        with c show ?thesis by simp
      qed
    qed
    have "sub_spaces (?tok @ ?rest) = ?tok @ sub_spaces ?rest"
      using tok by (rule sub_spaces_token)
    then have su: "sub_spaces ?u = ?tok @ sub_spaces ?rest"
      by (simp only: takeWhile_dropWhile_id)
    have strip: "strip (sub_spaces s) = rev (dropWhile isspace (rev (?tok @ sub_spaces ?rest)))"
      unfolding strip_def lead su ..
    show ?thesis
    proof (cases "\<forall>x \<in> set ?rest. isspace x")
      case True
      then have allX: "\<forall>x \<in> set (sub_spaces ?rest). isspace x"
        by (simp only: all_sub_spaces)
      have "strip (sub_spaces s) = rev (dropWhile isspace (rev ?tok))"
        unfolding strip by (simp only: rstrip_append if_P[OF allX])
      also have "\<dots> = ?tok" using tok by (rule rstrip_token)
      finally have "strip (sub_spaces s) = ?tok" .
      moreover have "split ?rest = []" using True by (rule split_all_space)
      ultimately show ?thesis by (simp only: sp join.simps)
    next
      case False
      then have nall: "\<not> (\<forall>x \<in> set (sub_spaces ?rest). isspace x)"
        using all_sub_spaces[of ?rest] by blast
      from False have ne: "split ?rest \<noteq> []" using split_eq_Nil[of ?rest] by blast
      from False obtain r rs where rest: "?rest = r # rs" by (cases ?rest) auto
      have r: "isspace r" using hd_dropWhile[of "\<lambda>d. \<not> isspace d" ?u] rest by auto
      let ?X' = "sub_spaces (dropWhile isspace rs)"
      have X: "sub_spaces ?rest = 32 # ?X'" unfolding rest using r by simp
      have nall': "\<not> (\<forall>x \<in> set ?X'. isspace x)" using nall unfolding X by simp
      then obtain y ys where dr: "dropWhile isspace rs = y # ys"
        by (cases "dropWhile isspace rs") auto
      have y: "\<not> isspace y" using hd_dropWhile[of isspace rs] dr by simp
      have "dropWhile isspace (32 # ?X') = ?X'"
        unfolding dr using y by simp
      then have "strip (32 # ?X') = rev (dropWhile isspace (rev ?X'))"
        by (simp only: strip_def)
      then have e1: "rev (dropWhile isspace (rev ?X')) = join [32] (split ?rest)"
        using ih by (simp only: X)
      have nallX: "\<not> (\<forall>x \<in> set ?X'. isspace x)" by (rule nall')
      have "rev (dropWhile isspace (rev ([32] @ ?X'))) = [32] @ rev (dropWhile isspace (rev ?X'))"
        by (simp only: rstrip_append if_not_P[OF nallX])
      then have e2: "rev (dropWhile isspace (rev (32 # ?X'))) = 32 # join [32] (split ?rest)"
        by (simp only: e1 append_Cons append_Nil)
      have nallX2: "\<not> (\<forall>x \<in> set (32 # ?X'). isspace x)" using nall' by simp
      have "strip (sub_spaces s) = rev (dropWhile isspace (rev (?tok @ 32 # ?X')))"
        by (simp only: strip X)
      also have "\<dots> = ?tok @ rev (dropWhile isspace (rev (32 # ?X')))"
        by (simp only: rstrip_append if_not_P[OF nallX2])
      also have "\<dots> = ?tok @ 32 # join [32] (split ?rest)" by (simp only: e2)
      also have "\<dots> = join [32] (?tok # split ?rest)"
        using ne by (cases "split ?rest") simp_all
      finally show ?thesis unfolding sp .
    qed
  qed
qed

lemma norm_for_match_tokens:
  "list_all is_token (split (norm_for_match text))
   \<and> join [32] (split (norm_for_match text)) = norm_for_match text"
proof -
  obtain s where n: "norm_for_match text = strip (sub_spaces s)"
    by (simp add: norm_for_match_def Let_def)
  have tk: "list_all is_token (split u)" for u
    using split_tokens by (auto simp: list_all_iff)
  have "split (norm_for_match text) = split s"
    unfolding n strip_sub_spaces_join using tk by (rule split_join)
  then have "join [32] (split (norm_for_match text)) = norm_for_match text"
    unfolding n by (simp add: strip_sub_spaces_join)
  with tk show ?thesis by simp
qed

lemmas char_defs = isspace_def is_lower_az_def is_upper_AZ_def is_digit_def is_dash_def
  match_keep_def display_keep_def lower_cp_def title_cp_def

lemmas str_defs = ustr_def lower_def strip_def norm_for_match_def normalize_text_def

section \<open>Properties of the matcher\<close>

lemma ARCHETYPES_keys: "map fst ARCHETYPES = [ustr ''Rebel'', ustr ''Caregiver'', ustr ''Explorer'']"
  by (simp add: ARCHETYPES_def)

lemma ARCHETYPES_distinct: "distinct (map fst ARCHETYPES)"
  unfolding ARCHETYPES_keys by (simp add: ustr_def)

lemma map_fst_values: "map fst (map (\<lambda>(name, lex). (name, h lex)) xs) = map fst xs"
  by (induction xs) auto

lemma analyze_patterns_all_eq:
  "analyze_patterns_all text =
     map (\<lambda>(name, lex). (name, keyword_hits (ngram_set (norm_for_match text)) (keywords_lex lex)))
       ARCHETYPES"
proof -
  let ?h = "\<lambda>lex. keyword_hits (ngram_set (norm_for_match text)) (keywords_lex lex)"
  let ?kvs = "map (\<lambda>(name, lex). (name, ?h lex)) ARCHETYPES"
  have "analyze_patterns_all text = dict_of_items ?kvs"
    by (simp add: analyze_patterns_all_def Let_def dict_of_items_def fold_dict_set_map[of ?h])
  moreover have "distinct (map fst ?kvs)"
    unfolding map_fst_values by (rule ARCHETYPES_distinct)
  then have "dict_of_items ?kvs = ?kvs"
    by (rule dict_of_items_distinct)
  ultimately show ?thesis by simp
qed

lemma analyze_patterns_all_keys: "map fst (analyze_patterns_all text) = map fst ARCHETYPES"
  unfolding analyze_patterns_all_eq by (rule map_fst_values)

lemma analyze_patterns_all_get:
  "dict_get (analyze_patterns_all text) name [] =
     keyword_hits (ngram_set (norm_for_match text))
       (keywords_lex (dict_get ARCHETYPES name empty_lexicon))"
proof -
  have "map_of (map (\<lambda>(n, l). (n, f l)) xs) name = map_option f (map_of xs name)" for f :: "lexicon \<Rightarrow> str list" and xs
    by (induction xs) auto
  then show ?thesis
    by (auto simp: analyze_patterns_all_eq dict_get_def keyword_hits_def empty_lexicon_def
        split: option.splits)
qed

lemma norm_for_match_lower_cong: "lower a = lower b \<Longrightarrow> norm_for_match a = norm_for_match b"
  by (simp add: norm_for_match_def)

lemma keyword_hits_iff:
  "w \<in> set (keyword_hits grams kws) \<longleftrightarrow> (\<exists>kw \<in> set kws. w = lower kw \<and> norm_for_match kw \<in> grams)"
  by (auto simp: keyword_hits_def)

lemma keyword_hits_lower_iff:
  assumes "kw \<in> set kws"
  shows "lower kw \<in> set (keyword_hits grams kws) \<longleftrightarrow> norm_for_match kw \<in> grams"
proof
  assume "lower kw \<in> set (keyword_hits grams kws)"
  then obtain kw' where "kw' \<in> set kws" "lower kw = lower kw'" "norm_for_match kw' \<in> grams"
    by (auto simp: keyword_hits_iff)
  then show "norm_for_match kw \<in> grams"
    using norm_for_match_lower_cong[of kw kw'] by simp
next
  assume "norm_for_match kw \<in> grams"
  with assms show "lower kw \<in> set (keyword_hits grams kws)"
    by (auto simp: keyword_hits_iff)
qed

lemma keyword_hits_empty: "keyword_hits {} kws = []"
  by (simp add: keyword_hits_def)

section \<open>Concrete texts\<close>

lemma norm_careful: "norm_for_match (ustr ''careful development'') = ustr ''careful development''"
  by (simp add: str_defs char_defs)

lemma norm_care: "norm_for_match (ustr ''care'') = ustr ''care''"
  by (simp add: str_defs char_defs)

lemma norm_well_hyphen: "norm_for_match (ustr ''well-being'') = ustr ''well being''"
  by (simp add: str_defs char_defs)

lemma norm_well_space: "norm_for_match (ustr ''well being'') = ustr ''well being''"
  by (simp add: str_defs char_defs)

lemma care_not_in_careful:
  "norm_for_match (ustr ''care'') \<notin> ngram_set (norm_for_match (ustr ''careful development''))"
  unfolding norm_careful norm_care
  by (simp add: ngram_set_def split.simps ustr_def isspace_def)

lemma well_being_in:
  "norm_for_match (ustr ''well-being'') \<in> ngram_set (norm_for_match (ustr ''well-being''))"
  "norm_for_match (ustr ''well-being'') \<in> ngram_set (norm_for_match (ustr ''well being''))"
  unfolding norm_well_hyphen norm_well_space
  by (simp_all add: ngram_set_def split.simps ustr_def isspace_def)

lemma split_find_your_own_way:
  "length (split (norm_for_match (ustr ''find your own way''))) = 4"
  by (simp add: str_defs char_defs split.simps)

lemma lower_find_your_own_way: "lower (ustr ''find your own way'') = ustr ''find your own way''"
  by (simp add: str_defs char_defs)

section \<open>Properties of the rewrite generator\<close>

lemma random_choice_Inr:
  "xs \<noteq> [] \<Longrightarrow> \<exists>x g'. random_choice g xs = Inr (x, g') \<and> x \<in> set xs"
proof (cases xs)
  case Nil
  assume "xs \<noteq> []"
  with Nil show ?thesis by simp
next
  case (Cons y ys)
  show ?thesis
  proof (cases g)
    case Nil
    with Cons show ?thesis by simp
  next
    case (Cons n g')
    have "n mod length (y # ys) < length (y # ys)" by simp
    then have "(y # ys) ! (n mod length (y # ys)) \<in> set (y # ys)"
      by (rule nth_mem)
    with Cons \<open>xs = y # ys\<close> show ?thesis by simp
  qed
qed

lemma pick_Inr: "\<exists>v g'. pick g arr dflt = Inr (v, g')"
  using random_choice_Inr[of arr g] by (auto simp: pick_def)

lemmas fmt_defs = ustr_def bind_def dict_item_def is_digit_def

lemma format_rebel1:
  "format_fields (ustr ''We {verb} the rules so you can {benefit}.'')
     [(ustr ''brand'', b), (ustr ''verb'', v), (ustr ''verb2'', v2), (ustr ''verb3'', v3),
      (ustr ''benefit'', bf)]
   = Inr (ustr ''We '' @ v @ ustr '' the rules so you can '' @ bf @ ustr ''.'')"
  by (simp add: fmt_defs)


lemma format_rebel2:
  "format_fields (ustr ''No permission needed. {brand} {verb2} limits.'')
     [(ustr ''brand'', b), (ustr ''verb'', v), (ustr ''verb2'', v2), (ustr ''verb3'', v3),
      (ustr ''benefit'', bf)]
   = Inr (ustr ''No permission needed. '' @ b @ ustr '' '' @ v2 @ ustr '' limits.'')"
  by (simp add: fmt_defs)

lemma format_rebel3:
  "format_fields (ustr ''{brand} is for the ones who {verb3} conformity.'')
     [(ustr ''brand'', b), (ustr ''verb'', v), (ustr ''verb2'', v2), (ustr ''verb3'', v3),
      (ustr ''benefit'', bf)]
   = Inr (b @ ustr '' is for the ones who '' @ v3 @ ustr '' conformity.'')"
  by (simp add: fmt_defs)

lemma format_caregiver1:
  "format_fields (ustr ''{brand} is here to {verb} you'' @ [8212] @ ustr ''every step.'')
     [(ustr ''brand'', b), (ustr ''verb'', v), (ustr ''verb2'', v2), (ustr ''verb3'', v3),
      (ustr ''benefit'', bf)]
   = Inr (b @ ustr '' is here to '' @ v @ ustr '' you'' @ [8212] @ ustr ''every step.'')"
  by (simp add: fmt_defs)

lemma format_caregiver2:
  "format_fields (ustr ''Because your {benefit} deserves gentle, proven care.'')
     [(ustr ''brand'', b), (ustr ''verb'', v), (ustr ''verb2'', v2), (ustr ''verb3'', v3),
      (ustr ''benefit'', bf)]
   = Inr (ustr ''Because your '' @ bf @ ustr '' deserves gentle, proven care.'')"
  by (simp add: fmt_defs)

lemma format_explorer1:
  "format_fields (ustr ''Go {verb} the map'' @ [8212] @ ustr ''{brand} equips your {benefit}.'')
     [(ustr ''brand'', b), (ustr ''verb'', v), (ustr ''verb2'', v2), (ustr ''verb3'', v3),
      (ustr ''benefit'', bf)]
   = Inr (ustr ''Go '' @ v @ ustr '' the map'' @ [8212] @ b @ ustr '' equips your '' @ bf @ ustr ''.'')"
  by (simp add: fmt_defs)

lemma format_explorer2:
  "format_fields (ustr ''Every path is a story. {brand} gets you there.'')
     [(ustr ''brand'', b), (ustr ''verb'', v), (ustr ''verb2'', v2), (ustr ''verb3'', v3),
      (ustr ''benefit'', bf)]
   = Inr (ustr ''Every path is a story. '' @ b @ ustr '' gets you there.'')"
  by (simp add: fmt_defs)

lemma rewrite_lex_ok:
  assumes "list_all formats_ok (templates lx)"
  shows "\<exists>s g'. rewrite_lex lx g text brand = Inr (s, g')"
proof (cases "templates lx = []")
  case True
  then show ?thesis by (simp add: rewrite_lex_def Let_def)
next
  case False
  then obtain t g1 where rc: "random_choice g (templates lx) = Inr (t, g1)"
    and t: "t \<in> set (templates lx)"
    using random_choice_Inr[of "templates lx" g] by blast
  obtain v g2 where p1: "pick g1 (verbs lx) (ustr ''support'') = Inr (v, g2)"
    using pick_Inr by blast
  obtain v2 g3 where p2: "pick g2 (verbs2 lx) (ustr ''go'') = Inr (v2, g3)"
    using pick_Inr by blast
  obtain v3 g4 where p3: "pick g3 (verbs3 lx) (ustr ''move'') = Inr (v3, g4)"
    using pick_Inr by blast
  obtain bf g5 where p4: "pick g4 (benefits lx) (ustr ''what matters'') = Inr (bf, g5)"
    using pick_Inr by blast
  from assms t have "formats_ok t" by (simp add: list_all_iff)
  then obtain s where "format_fields t
        [(ustr ''brand'', brand), (ustr ''verb'', v), (ustr ''verb2'', v2), (ustr ''verb3'', v3),
         (ustr ''benefit'', bf)] = Inr s"
    unfolding formats_ok_def by blast
  with False rc p1 p2 p3 p4 show ?thesis
    by (simp add: rewrite_lex_def Let_def bind_def)
qed

lemma templates_ok:
  "list_all formats_ok (templates REBEL)"
  "list_all formats_ok (templates CAREGIVER)"
  "list_all formats_ok (templates EXPLORER)"
  "list_all formats_ok (templates empty_lexicon)"
  by (simp_all add: REBEL_def CAREGIVER_def EXPLORER_def empty_lexicon_def formats_ok_def
      format_rebel1 format_rebel2 format_rebel3 format_caregiver1[simplified] format_caregiver2
      format_explorer1[simplified] format_explorer2)

lemma ARCHETYPES_get:
  "dict_get ARCHETYPES target empty_lexicon \<in> {REBEL, CAREGIVER, EXPLORER, empty_lexicon}"
  by (simp add: ARCHETYPES_def dict_get_def)

lemma ARCHETYPES_get_unknown:
  "target \<notin> set (dict_keys ARCHETYPES) \<Longrightarrow> dict_get ARCHETYPES target empty_lexicon = empty_lexicon"
  by (simp add: dict_get_def dict_keys_def map_of_eq_None_iff[THEN iffD2])

lemma rewrite_total: "\<exists>s g'. rewrite g text target brand = Inr (s, g')"
proof -
  have "list_all formats_ok (templates (dict_get ARCHETYPES target empty_lexicon))"
    using ARCHETYPES_get[of target] templates_ok by auto
  then show ?thesis unfolding rewrite_def by (rule rewrite_lex_ok)
qed

lemma rewrite_lex_fallback:
  "templates lx = [] \<Longrightarrow>
   rewrite_lex lx g text brand =
     Inr (let t = normalize_text (apply_replacements (replace lx) text)
          in if 120 < length t then take 120 t @ ustr ''...'' else t, g)"
  by (simp add: rewrite_lex_def Let_def)

lemma rewrite_unknown:
  assumes "target \<notin> set (dict_keys ARCHETYPES)"
  shows "rewrite g text target brand =
     Inr (let t = normalize_text text
          in if 120 < length t then take 120 t @ ustr ''...'' else t, g)"
proof -
  have "rewrite g text target brand = rewrite_lex empty_lexicon g text brand"
    using assms by (simp add: rewrite_def ARCHETYPES_get_unknown)
  also have "\<dots> = Inr (let t = normalize_text (apply_replacements (replace empty_lexicon) text)
          in if 120 < length t then take 120 t @ ustr ''...'' else t, g)"
    by (rule rewrite_lex_fallback) (simp add: empty_lexicon_def)
  finally show ?thesis by (simp add: empty_lexicon_def apply_replacements_def)
qed

section \<open>Properties of the decision engine\<close>

lemma dict_item_key:
  assumes "k \<in> fst ` set d"
  shows "\<exists>v. dict_item d k = Inr v \<and> (k, v) \<in> set d \<and> dict_get d k dflt = v"
proof -
  from assms obtain v where v: "map_of d k = Some v"
    by (metis map_of_eq_None_iff not_Some_eq)
  then have "(k, v) \<in> set d" by (rule map_of_SomeD)
  with v show ?thesis by (simp add: dict_item_def dict_get_def)
qed

lemma model_scores_props:
  assumes "model_scores labels probs = Inr scs"
  shows "distinct (map fst scs)" and "fst ` set scs = set labels"
    and "snd ` set scs \<subseteq> set probs" and "length labels \<le> length probs"
proof -
  let ?kvs = "map (\<lambda>i. (labels ! i, probs ! i)) [0 ..< length labels]"
  from assms have len: "length labels \<le> length probs" and scs: "scs = dict_of_items ?kvs"
    by (auto simp: model_scores_def split: if_splits)
  show "length labels \<le> length probs" by (rule len)
  show "distinct (map fst scs)" unfolding scs by (rule dict_of_items_keys_distinct)
  have "fst ` set ?kvs = set labels"
    by (force simp: image_iff in_set_conv_nth)
  then show "fst ` set scs = set labels" unfolding scs by (simp add: dict_of_items_keys)
  have "snd ` set ?kvs \<subseteq> set probs"
    using len by (auto intro!: nth_mem)
  moreover have "set scs \<subseteq> set ?kvs" unfolding scs by (rule dict_of_items_subset)
  ultimately show "snd ` set scs \<subseteq> set probs" by blast
qed

lemma model_scores_Inr:
  "length labels \<le> length probs \<Longrightarrow> \<exists>scs. model_scores labels probs = Inr scs"
  by (simp add: model_scores_def)

lemma model_top_ex:
  assumes "scs \<noteq> []"
  shows "\<exists>top0 conf0. model_top scs = Inr top0 \<and> top0 \<in> fst ` set scs
           \<and> dict_item scs top0 = Inr conf0 \<and> (top0, conf0) \<in> set scs"
proof -
  from assms have "dict_keys scs \<noteq> []" by (simp add: dict_keys_def)
  then obtain top0 where t: "max_key (dict_keys scs) (\<lambda>k. map_of scs k) = Inr top0"
    and m: "top0 \<in> set (dict_keys scs)"
    using max_key_Inr by blast
  from m have "top0 \<in> fst ` set scs" by (simp add: dict_keys_def)
  with dict_item_key[of top0 scs] t show ?thesis by (auto simp: model_top_def)
qed

lemma ARCHETYPES_names_nonempty: "ll \<in> set (map fst ARCHETYPES) \<Longrightarrow> ll \<noteq> []"
  unfolding ARCHETYPES_keys by (auto simp: ustr_def)

lemma lex_label_ex:
  "\<exists>ll. lex_label_of (analyze_patterns_all inp) = Inr (Some ll) \<and> ll \<in> set (map fst ARCHETYPES)"
proof -
  let ?fa = "analyze_patterns_all inp"
  have keys: "dict_keys ?fa = map fst ARCHETYPES"
    by (simp add: dict_keys_def analyze_patterns_all_keys)
  then have ne: "dict_keys ?fa \<noteq> []" by (simp add: ARCHETYPES_keys)
  then have fa: "?fa \<noteq> []" by (auto simp: dict_keys_def)
  from ne obtain ll where "max_key (dict_keys ?fa) (\<lambda>k. length (dict_get ?fa k [])) = Inr ll"
    and "ll \<in> set (dict_keys ?fa)"
    using max_key_Inr by blast
  with fa keys show ?thesis by (auto simp: lex_label_of_def)
qed

lemma lex_label_greatest:
  assumes "lex_label_of fa = Inr (Some ll)" and "k \<in> set (dict_keys fa)"
  shows "length (dict_get fa k []) \<le> length (dict_get fa ll [])"
proof -
  from assms(1) have "max_key (dict_keys fa) (\<lambda>k. length (dict_get fa k [])) = Inr ll"
    by (cases "max_key (dict_keys fa) (\<lambda>k. length (dict_get fa k []))")
       (auto simp: lex_label_of_def split: if_splits)
  from max_key_greatest[OF this assms(2)] show ?thesis .
qed

lemma lex_hits_eq:
  "lex_hits_of (analyze_patterns_all inp) = map (\<lambda>(k, v). (k, length v)) (analyze_patterns_all inp)"
proof -
  have "map fst (map (\<lambda>(k, v). (k, length v)) xs) = map fst xs"
    for xs :: "(str \<times> str list) list"
    by (induction xs) auto
  then have "map fst (map (\<lambda>(k, v). (k, length v)) (analyze_patterns_all inp)) = map fst ARCHETYPES"
    by (simp only: analyze_patterns_all_keys)
  then have "distinct (map fst (map (\<lambda>(k, v). (k, length v)) (analyze_patterns_all inp)))"
    using ARCHETYPES_distinct by simp
  then show ?thesis unfolding lex_hits_of_def by (rule dict_of_items_distinct)
qed

lemma lex_hits_get:
  "dict_get (lex_hits_of (analyze_patterns_all inp)) k 0
   = length (dict_get (analyze_patterns_all inp) k [])"
proof -
  have "map_of (map (\<lambda>(k, v). (k, length v)) xs) k = map_option length (map_of xs k)"
    for xs :: "(str \<times> str list) list"
    by (induction xs) auto
  then show ?thesis by (simp add: lex_hits_eq dict_get_def split: option.splits)
qed

lemma lex_hits_item:
  assumes "ll \<in> set (map fst ARCHETYPES)"
  shows "dict_item (lex_hits_of (analyze_patterns_all inp)) ll
         = Inr (dict_get (lex_hits_of (analyze_patterns_all inp)) ll 0)"
proof -
  have "fst ` set (lex_hits_of (analyze_patterns_all inp)) = set (map fst ARCHETYPES)"
    unfolding lex_hits_eq analyze_patterns_all_keys[symmetric, of inp] by force
  with assms have "ll \<in> fst ` set (lex_hits_of (analyze_patterns_all inp))" by simp
  from dict_item_key[OF this, of 0] show ?thesis by auto
qed

lemma lexicon_override_eq:
  assumes "lex_label_of (analyze_patterns_all inp) = Inr (Some ll)"
  shows "lexicon_override top0 conf0 scs (analyze_patterns_all inp) =
           Inr (if override_fires (analyze_patterns_all inp) top0 conf0 ll
                then (ll, round4 (blend (dict_get scs ll 0)))
                else (top0, conf0))"
proof -
  from lex_label_ex[of inp] assms have ll: "ll \<in> set (map fst ARCHETYPES)" by auto
  then have ne: "ll \<noteq> []" by (rule ARCHETYPES_names_nonempty)
  show ?thesis
    using assms ne lex_hits_item[OF ll, of inp]
    by (cases "ll = top0")
       (simp_all add: lexicon_override_def bind_def Let_def override_fires_def match_count_def
          lex_hits_get)
qed

lemma classify_eq:
  assumes ms: "model_scores (classes m) (predict_proba m (normalize_text text)) = Inr scs"
    and mt: "model_top scs = Inr top0"
    and di: "dict_item scs top0 = Inr conf0"
    and ll: "lex_label_of (analyze_patterns_all (normalize_text text)) = Inr (Some ll)"
    and lc: "(l, c) = (if override_fires (analyze_patterns_all (normalize_text text))
                           top0 conf0 ll
                       then (ll, round4 (blend (dict_get scs ll 0)))
                       else (top0, conf0))"
  shows "\<exists>ex g'. rewrite g text l (ustr ''Your brand'') = Inr (ex, g')
           \<and> classify (Some m) g text
               = Inr (response_for scs (analyze_patterns_all (normalize_text text)) l c ex)"
proof -
  obtain ex g' where rw: "rewrite g text l (ustr ''Your brand'') = Inr (ex, g')"
    using rewrite_total by blast
  have ov: "lexicon_override top0 conf0 scs (analyze_patterns_all (normalize_text text)) = Inr (l, c)"
    unfolding lexicon_override_eq[OF ll] lc by simp
  have "classify (Some m) g text
        = Inr (response_for scs (analyze_patterns_all (normalize_text text)) l c ex)"
    using ms mt di ov rw
    by (simp add: classify_def Let_def bind_def response_for_def)
  with rw show ?thesis by blast
qed

lemma classify_total:
  assumes "classes m \<noteq> []"
    and "length (classes m) \<le> length (predict_proba m (normalize_text text))"
  shows "\<exists>scs top0 conf0 ll l c ex g'.
           model_scores (classes m) (predict_proba m (normalize_text text)) = Inr scs
         \<and> model_top scs = Inr top0 \<and> dict_item scs top0 = Inr conf0 \<and> (top0, conf0) \<in> set scs
         \<and> lex_label_of (analyze_patterns_all (normalize_text text)) = Inr (Some ll)
         \<and> ll \<in> set (map fst ARCHETYPES)
         \<and> (l, c) = (if override_fires (analyze_patterns_all (normalize_text text))
                           top0 conf0 ll
                     then (ll, round4 (blend (dict_get scs ll 0)))
                     else (top0, conf0))
         \<and> rewrite g text l (ustr ''Your brand'') = Inr (ex, g')
         \<and> classify (Some m) g text
               = Inr (response_for scs (analyze_patterns_all (normalize_text text)) l c ex)"
proof -
  let ?inp = "normalize_text text"
  obtain scs where ms: "model_scores (classes m) (predict_proba m ?inp) = Inr scs"
    using model_scores_Inr[OF assms(2)] by blast
  from model_scores_props(2)[OF ms] assms(1) have "scs \<noteq> []" by auto
  then obtain top0 conf0 where mt: "model_top scs = Inr top0"
    and di: "dict_item scs top0 = Inr conf0" and mem: "(top0, conf0) \<in> set scs"
    using model_top_ex by blast
  obtain ll where ll: "lex_label_of (analyze_patterns_all ?inp) = Inr (Some ll)"
    and lk: "ll \<in> set (map fst ARCHETYPES)"
    using lex_label_ex by blast
  obtain l c where lc: "(l, c) = (if override_fires (analyze_patterns_all ?inp)
                           top0 conf0 ll
                     then (ll, round4 (blend (dict_get scs ll 0)))
                     else (top0, conf0))"
    by (metis surj_pair)
  from classify_eq[OF ms mt di ll lc, of g] ms mt di mem ll lk lc
  show ?thesis by blast
qed

section \<open>The classifier's best label\<close>

lemma model_top_greatest:
  assumes "model_top scs = Inr top0" and "dict_item scs top0 = Inr conf0"
    and "distinct (map fst scs)" and "(k, v) \<in> set scs"
  shows "v \<le> conf0"
proof -
  from assms(4) have "k \<in> set (dict_keys scs)" by (force simp: dict_keys_def)
  with assms(1) have "map_of scs k \<le> map_of scs top0"
    unfolding model_top_def by (rule max_key_greatest)
  moreover from assms(3,4) have "map_of scs k = Some v" by simp
  moreover from assms(2) have "map_of scs top0 = Some conf0"
    by (simp add: dict_item_def split: option.splits)
  ultimately show ?thesis by simp
qed

lemma model_scores_zip:
  assumes "distinct labels" and "length labels \<le> length probs"
  shows "model_scores labels probs = Inr (zip labels probs)"
proof -
  have "map (\<lambda>i. (labels ! i, probs ! i)) [0 ..< length labels] = zip labels probs"
    using assms(2) by (intro nth_equalityI) auto
  moreover from assms have "distinct (map fst (zip labels probs))"
    by (simp add: map_fst_zip_take)
  ultimately show ?thesis
    using assms(2) by (simp add: model_scores_def dict_of_items_distinct)
qed

section \<open>The three best scores\<close>

lemma map_fst_round: "map fst (map (\<lambda>(k, v). (k, round4 v)) xs) = map fst xs"
  by (induction xs) auto

lemma top3_scores_eq:
  assumes "distinct (map fst scs)"
  shows "top3_scores scs
         = map (\<lambda>(k, v). (k, round4 v)) (take 3 (sort_key (\<lambda>kv. - snd kv) scs))"
proof -
  let ?srt = "sort_key (\<lambda>kv. - snd kv) scs"
  have "distinct (map fst ?srt)"
    using assms by (simp add: distinct_map)
  then have d3: "distinct (map fst (take 3 ?srt))"
    by (simp add: take_map[symmetric] distinct_take)
  then have "dict_of_items (take 3 ?srt) = take 3 ?srt" by (rule dict_of_items_distinct)
  moreover have "distinct (map fst (map (\<lambda>(k, v). (k, round4 v)) (take 3 ?srt)))"
    unfolding map_fst_round by (rule d3)
  then have "dict_of_items (map (\<lambda>(k, v). (k, round4 v)) (take 3 ?srt))
             = map (\<lambda>(k, v). (k, round4 v)) (take 3 ?srt)"
    by (rule dict_of_items_distinct)
  ultimately show ?thesis by (simp add: top3_scores_def Let_def)
qed

lemma ranking_props:
  fixes scs :: "(str, rat) dict"
  defines "srt \<equiv> sort_key (\<lambda>kv. - snd kv) scs"
  shows "set srt = set scs" and "length srt = length scs"
    and "sorted_wrt (\<lambda>a b. snd b \<le> snd a) srt"
    and "filter (\<lambda>kv. snd kv = v) srt = filter (\<lambda>kv. snd kv = v) scs"
proof -
  show "set srt = set scs" "length srt = length scs" by (simp_all add: srt_def)
  have "sorted (map (\<lambda>kv. - snd kv) srt)" unfolding srt_def by (rule sorted_sort_key)
  then show "sorted_wrt (\<lambda>a b. snd b \<le> snd a) srt"
    by (simp add: sorted_wrt_map)
  have "filter (\<lambda>kv. - snd kv = - v) srt = filter (\<lambda>kv. - snd kv = - v) scs"
    unfolding srt_def by (rule sort_key_stable)
  then show "filter (\<lambda>kv. snd kv = v) srt = filter (\<lambda>kv. snd kv = v) scs" by simp
qed

lemma rounded_sorted:
  "sorted_wrt (\<lambda>a b. snd b \<le> snd a) xs
   \<Longrightarrow> sorted_wrt (\<lambda>a b. snd b \<le> snd a) (map (\<lambda>(k, v). (k, round4 v)) (take n xs))"
proof -
  assume "sorted_wrt (\<lambda>a b. snd b \<le> snd a) xs"
  then have "sorted_wrt (\<lambda>a b. snd b \<le> snd a) (take n xs)"
    by (rule sorted_wrt_take)
  then have "sorted_wrt (\<lambda>a b. round4 (snd b) \<le> round4 (snd a)) (take n xs)"
    by (rule sorted_wrt_mono_rel[rotated]) (simp add: round4_mono)
  then show ?thesis by (simp add: sorted_wrt_map case_prod_beta)
qed

section \<open>Texts without a letter or digit\<close>

lemma strip_sub_spaces_Nil: "strip (sub_spaces s) = [] \<longleftrightarrow> (\<forall>c \<in> set s. isspace c)"
  by (simp only: strip_Nil all_sub_spaces)

lemma match_class:
  "isspace (if match_keep (if is_dash c then 32 else c) then (if is_dash c then 32 else c)
            else 32) \<longleftrightarrow> \<not> is_lower_az c \<and> \<not> is_digit c"
  by (auto simp: match_keep_def is_dash_def is_lower_az_def is_digit_def isspace_def)

lemma norm_for_match_Nil:
  "norm_for_match s = [] \<longleftrightarrow> (\<forall>c \<in> set (lower s). \<not> is_lower_az c \<and> \<not> is_digit c)"
proof -
  let ?h = "\<lambda>c. if match_keep (if is_dash c then 32 else c) then (if is_dash c then 32 else c)
            else 32"
  have "norm_for_match s = strip (sub_spaces (map ?h (lower s)))"
    by (simp add: norm_for_match_def Let_def o_def)
  then have "norm_for_match s = [] \<longleftrightarrow> (\<forall>c \<in> set (map ?h (lower s)). isspace c)"
    by (simp only: strip_sub_spaces_Nil)
  also have "\<dots> \<longleftrightarrow> (\<forall>c \<in> set (lower s). isspace (?h c))"
    by (simp only: list.set_map ball_simps)
  also have "\<dots> \<longleftrightarrow> (\<forall>c \<in> set (lower s). \<not> is_lower_az c \<and> \<not> is_digit c)"
    by (simp only: match_class)
  finally show ?thesis .
qed

lemma set_sub_http: "set (sub_http s) \<subseteq> insert 32 (set s)"
proof (induction s rule: sub_http.induct)
  case 1
  show ?case by simp
next
  case (2 c cs)
  have "set (dropWhile (\<lambda>d. \<not> isspace d) (drop 4 (c # cs))) \<subseteq> set (c # cs)"
    by (meson set_dropWhileD set_drop_subset subsetD subsetI)
  with 2 show ?case by (auto simp del: drop_Suc_Cons)
qed

lemma set_sub_spaces: "set (sub_spaces s) \<subseteq> insert 32 (set s)"
proof (induction s rule: sub_spaces.induct)
  case 1
  show ?case by simp
next
  case (2 c cs)
  have "set (dropWhile isspace cs) \<subseteq> set cs" by (auto dest: set_dropWhileD)
  with 2 show ?case by auto
qed

lemma set_strip: "set (strip s) \<subseteq> set s"
proof -
  have "set (strip s) \<subseteq> set (rev (dropWhile isspace s))"
    by (auto simp: strip_def dest: set_dropWhileD)
  also have "\<dots> \<subseteq> set s" by (auto dest: set_dropWhileD)
  finally show ?thesis .
qed

lemma set_normalize_text: "set (normalize_text s) \<subseteq> insert 32 (set s)"
proof -
  have "set (map (\<lambda>c. if display_keep c then c else 32) (sub_http s)) \<subseteq> insert 32 (set s)"
    using set_sub_http[of s] by auto
  with set_sub_spaces[of "map (\<lambda>c. if display_keep c then c else 32) (sub_http s)"]
    set_strip[of "sub_spaces (map (\<lambda>c. if display_keep c then c else 32) (sub_http s))"]
  show ?thesis unfolding normalize_text_def Let_def by blast
qed

lemma norm_for_match_normalize_Nil:
  assumes "norm_for_match s = []"
  shows "norm_for_match (normalize_text s) = []"
proof -
  have "\<not> is_lower_az c \<and> \<not> is_digit c" if "c \<in> set (lower (normalize_text s))" for c
  proof -
    from that obtain d where d: "d \<in> set (normalize_text s)" and c: "c \<in> set (lower_cp d)"
      by (auto simp: lower_def)
    from d set_normalize_text[of s] have "d = 32 \<or> d \<in> set s" by auto
    then show ?thesis
    proof
      assume "d = 32"
      with c show ?thesis by (simp add: lower_cp_def is_upper_AZ_def is_lower_az_def is_digit_def)
    next
      assume "d \<in> set s"
      with c have "c \<in> set (lower s)" by (auto simp: lower_def)
      with assms show ?thesis by (simp add: norm_for_match_Nil)
    qed
  qed
  then show ?thesis by (simp add: norm_for_match_Nil)
qed

lemma normalize_text_Nil: "normalize_text [] = []"
  by (simp add: normalize_text_def strip_def)

lemma analyze_patterns_all_none:
  assumes "norm_for_match text = []"
  shows "analyze_patterns_all text = no_matches"
proof -
  from assms have "ngram_set (norm_for_match text) = {}" by (simp add: ngram_set_empty)
  then show ?thesis
    by (simp add: analyze_patterns_all_eq keyword_hits_empty no_matches_def dict_keys_def
        case_prod_beta)
qed

section \<open>Facts shared by the statements about \<open>classify\<close>\<close>

lemma classify_eq_override:
  assumes "model_scores (classes m) (predict_proba m (normalize_text text)) = Inr scs"
    and "model_top scs = Inr top0"
    and "dict_item scs top0 = Inr conf0"
    and "lexicon_override top0 conf0 scs (analyze_patterns_all (normalize_text text)) = Inr (l, c)"
    and "rewrite g text l (ustr ''Your brand'') = Inr (ex, g')"
  shows "classify (Some m) g text
         = Inr (response_for scs (analyze_patterns_all (normalize_text text)) l c ex)"
  using assms by (simp add: classify_def Let_def bind_def response_for_def)

lemma classify_Inr_response:
  assumes "classify (Some m) g text = Inr r"
  shows "\<exists>scs l c ex. r = response_for scs (analyze_patterns_all (normalize_text text)) l c ex"
proof -
  from assms obtain scs top0 conf0 l c ex g'
    where "model_scores (classes m) (predict_proba m (normalize_text text)) = Inr scs"
      and "model_top scs = Inr top0"
      and "dict_item scs top0 = Inr conf0"
      and "lexicon_override top0 conf0 scs (analyze_patterns_all (normalize_text text))
           = Inr (l, c)"
      and "rewrite g text l (ustr ''Your brand'') = Inr (ex, g')"
    by (auto simp: classify_def bind_def Let_def split: sum.splits prod.splits)
  then have "classify (Some m) g text
             = Inr (response_for scs (analyze_patterns_all (normalize_text text)) l c ex)"
    by (rule classify_eq_override)
  with assms show ?thesis by auto
qed

lemma found_of_response:
  "patterns_found (response_for scs fa l c ex) = dict_get fa l []"
  "label (response_for scs fa l c ex) = l"
  "confidence (response_for scs fa l c ex) = round4 c"
  "scores (response_for scs fa l c ex) = top3_scores scs"
  "patterns_found_all (response_for scs fa l c ex) = fa"
  "patterns_missing (response_for scs fa l c ex)
   = take 10 (filter (\<lambda>w. w \<notin> set (dict_get fa l []))
       (map lower (keywords_lex (dict_get ARCHETYPES l empty_lexicon))))"
  by (simp_all add: response_for_def Let_def)

lemma match_count_le_lex_label:
  assumes "lex_label_of found = Inr (Some ll)"
  shows "match_count found k \<le> match_count found ll"
proof (cases "k \<in> set (dict_keys found)")
  case True
  with assms show ?thesis unfolding match_count_def by (rule lex_label_greatest)
next
  case False
  then have "map_of found k = None"
    by (simp add: dict_keys_def map_of_eq_None_iff)
  then show ?thesis by (simp add: match_count_def dict_get_def)
qed

lemma no_hits:
  assumes "norm_for_match inp = []"
  shows "dict_get (analyze_patterns_all inp) k [] = []"
  using assms by (simp add: analyze_patterns_all_get ngram_set_empty keyword_hits_empty)

lemma unknown_label_found:
  assumes "l \<notin> set (dict_keys ARCHETYPES)"
  shows "dict_get (analyze_patterns_all inp) l [] = []"
  unfolding analyze_patterns_all_get ARCHETYPES_get_unknown[OF assms]
  by (simp add: empty_lexicon_def keyword_hits_def)

subsection \<open>The example classifiers\<close>

lemma demo_model_scores:
  "model_scores (classes demo_model) (predict_proba demo_model t) = Inr demo_scores"
  by (simp add: demo_model_def demo_probs_def demo_scores_def model_scores_zip ustr_def)

lemma demo_model_top: "model_top demo_scores = Inr (ustr ''Rebel'')"
  by (simp add: model_top_def demo_scores_def dict_keys_def ustr_def)

lemma demo_model_conf: "dict_item demo_scores (ustr ''Rebel'') = Inr (40 / 100)"
  by (simp add: dict_item_def demo_scores_def ustr_def)

lemma norm_for_match_empty: "norm_for_match [] = []"
  by (simp add: norm_for_match_def lower_def strip_def)

lemma empty_lex_label:
  "lex_label_of (analyze_patterns_all (normalize_text [])) = Inr (Some (ustr ''Rebel''))"
proof -
  have "analyze_patterns_all (normalize_text []) = no_matches"
    by (simp add: normalize_text_Nil analyze_patterns_all_none norm_for_match_empty)
  then show ?thesis
    by (simp add: no_matches_def lex_label_of_def dict_keys_def dict_get_def ARCHETYPES_def
        ustr_def)
qed

lemma empty_not_fires:
  "\<not> override_fires (analyze_patterns_all (normalize_text [])) top0 conf0 ll"
  by (simp add: override_fires_def match_count_def no_hits normalize_text_Nil
      norm_for_match_empty)

lemma hero_unknown: "ustr ''Hero'' \<notin> set (dict_keys ARCHETYPES)"
  by (simp add: dict_keys_def ARCHETYPES_def ustr_def)

lemma hero_model_scores:
  "model_scores (classes hero_model) (predict_proba hero_model t) = Inr [(ustr ''Hero'', 1)]"
  by (simp add: hero_model_def hero_probs_def model_scores_zip)

lemma hero_model_top: "model_top [(ustr ''Hero'', 1)] = Inr (ustr ''Hero'')"
  by (simp add: model_top_def dict_keys_def)

lemma hero_model_conf: "dict_item [(ustr ''Hero'', 1::rat)] (ustr ''Hero'') = Inr 1"
  by (simp add: dict_item_def)

subsection \<open>Keywords of the examples\<close>

lemma lower_care: "lower (ustr ''care'') = ustr ''care''"
  by (simp add: str_defs char_defs)

lemma lower_well_being: "lower (ustr ''well-being'') = ustr ''well-being''"
  by (simp add: str_defs char_defs)

lemma well_being_keyword: "ustr ''well-being'' \<in> set (keywords_lex CAREGIVER)"
  by (simp add: CAREGIVER_def)

lemma care_in_we_care:
  "norm_for_match (ustr ''care'') \<in> ngram_set (norm_for_match (ustr ''We care.''))"
proof -
  have "norm_for_match (ustr ''We care.'') = ustr ''we care''"
    by (simp add: str_defs char_defs)
  then show ?thesis
    unfolding norm_care by (simp add: ngram_set_def split.simps ustr_def isspace_def)
qed

lemma well_being_in_sentence:
  "norm_for_match (ustr ''well-being'')
   \<in> ngram_set (norm_for_match (ustr ''Your well-being matters''))"
proof -
  have "norm_for_match (ustr ''Your well-being matters'') = ustr ''your well being matters''"
    by (simp add: str_defs char_defs)
  moreover have "split (ustr ''your well being matters'')
      = map ustr [''your'', ''well'', ''being'', ''matters'']"
    by (simp add: split.simps ustr_def isspace_def)
  moreover have "[0 ..< length (map ustr [''your'', ''well'', ''being'', ''matters'']) - 1]
      = [0, 1, 2]"
    by (simp add: upt_rec)
  ultimately show ?thesis
    unfolding norm_well_hyphen ngram_set_def Let_def by (simp add: ustr_def)
qed

section \<open>A text that fires the override\<close>

lemma az_lower_cp: "is_lower_az c \<Longrightarrow> lower_cp c = [c]"
  by (auto simp: lower_cp_def is_lower_az_def is_upper_AZ_def)

lemma az_not_dash: "is_lower_az c \<Longrightarrow> \<not> is_dash c"
  by (auto simp: is_dash_def is_lower_az_def)

lemma az_match_keep: "is_lower_az c \<Longrightarrow> match_keep c"
  by (auto simp: match_keep_def)

lemma az_display_keep: "is_lower_az c \<Longrightarrow> display_keep c"
  by (auto simp: display_keep_def)

lemma az_not_space: "is_lower_az c \<Longrightarrow> \<not> isspace c"
  by (auto simp: isspace_def is_lower_az_def)

lemma space_hyphen:
  "lower_cp 32 = [32]" "\<not> is_dash 32" "match_keep 32" "display_keep 32"
  "lower_cp 45 = [45]" "is_dash 45" "\<not> isspace 45"
  by (auto simp: lower_cp_def is_upper_AZ_def is_dash_def match_keep_def display_keep_def
      isspace_def)

lemmas plain_chars = az_lower_cp az_not_dash az_match_keep az_display_keep az_not_space
  space_hyphen is_lower_az_def

lemmas plain_norm = norm_for_match_def lower_def strip_def ustr_def plain_chars

lemma demo_normalize: "normalize_text demo_text = demo_text"
  by (simp add: demo_text_def normalize_text_def strip_def ustr_def plain_chars)

lemma demo_norm: "norm_for_match demo_text = demo_text"
  by (simp add: demo_text_def plain_norm)

lemma demo_split:
  "split demo_text = map ustr [''we'', ''care'', ''and'', ''protect'', ''your'', ''family'']"
  by (simp add: demo_text_def split.simps ustr_def plain_chars)

lemma demo_grams:
  "ngram_set demo_text = set (map ustr [''we'', ''care'', ''and'', ''protect'', ''your'', ''family'',
     ''we care'', ''care and'', ''and protect'', ''protect your'', ''your family'',
     ''we care and'', ''care and protect'', ''and protect your'', ''protect your family''])"
proof -
  let ?toks = "map ustr [''we'', ''care'', ''and'', ''protect'', ''your'', ''family'']"
  have n1: "[0 ..< length ?toks - 1] = [0, 1, 2, 3, 4]" by (simp add: upt_rec)
  have n2: "[0 ..< length ?toks - 2] = [0, 1, 2, 3]" by (simp add: upt_rec)
  show ?thesis
    unfolding ngram_set_def Let_def demo_split n1 n2
    by (simp add: ustr_def insert_commute)
qed

lemmas demo_grams_eval = demo_grams[unfolded ustr_def, simplified]

lemma demo_hits_rebel: "keyword_hits (ngram_set demo_text) (keywords_lex REBEL) = []"
  unfolding demo_grams_eval by (simp add: keyword_hits_def REBEL_def plain_norm)

lemma demo_hits_caregiver:
  "keyword_hits (ngram_set demo_text) (keywords_lex CAREGIVER)
   = map ustr [''care'', ''protect'', ''family'']"
  unfolding demo_grams_eval by (simp add: keyword_hits_def CAREGIVER_def plain_norm)

lemma demo_hits_explorer: "keyword_hits (ngram_set demo_text) (keywords_lex EXPLORER) = []"
  unfolding demo_grams_eval by (simp add: keyword_hits_def EXPLORER_def plain_norm)

lemma demo_found_all:
  "analyze_patterns_all (normalize_text demo_text)
   = [(ustr ''Rebel'', []), (ustr ''Caregiver'', map ustr [''care'', ''protect'', ''family'']),
      (ustr ''Explorer'', [])]"
  unfolding demo_normalize analyze_patterns_all_eq demo_norm
  by (simp add: ARCHETYPES_def demo_hits_rebel demo_hits_caregiver demo_hits_explorer)

lemma demo_counts:
  "match_count (analyze_patterns_all (normalize_text demo_text)) (ustr ''Rebel'') = 0"
  "match_count (analyze_patterns_all (normalize_text demo_text)) (ustr ''Caregiver'') = 3"
  "match_count (analyze_patterns_all (normalize_text demo_text)) (ustr ''Explorer'') = 0"
  unfolding demo_found_all by (simp_all add: match_count_def dict_get_def ustr_def)

lemma demo_lex_label:
  "lex_label_of (analyze_patterns_all (normalize_text demo_text)) = Inr (Some (ustr ''Caregiver''))"
  unfolding demo_found_all
  by (simp add: lex_label_of_def dict_keys_def dict_get_def ustr_def)

lemma blend_model_scores:
  "model_scores (classes blend_model) (predict_proba blend_model t) = Inr blend_scores"
proof -
  have "distinct (map fst blend_scores)" by (simp add: blend_scores_def ustr_def)
  then show ?thesis
    by (simp add: blend_model_def blend_probs_def model_scores_zip zip_map_fst_snd)
qed

lemma blend_model_top: "model_top blend_scores = Inr (ustr ''Rebel'')"
  by (simp add: model_top_def blend_scores_def dict_keys_def ustr_def)

lemma blend_model_conf: "dict_item blend_scores (ustr ''Rebel'') = Inr (89 / 128)"
  by (simp add: dict_item_def blend_scores_def ustr_def)

lemma blend_model_caregiver: "dict_get blend_scores (ustr ''Caregiver'') 0 = 7 / 128"
  by (simp add: dict_get_def blend_scores_def ustr_def)

lemma demo_fires:
  "override_fires (analyze_patterns_all (normalize_text demo_text)) (ustr ''Rebel'') (89 / 128)
     (ustr ''Caregiver'')"
  unfolding override_fires_def demo_counts by (simp add: ustr_def)

section \<open>The example classifiers ranked\<close>

lemma classify_scores:
  assumes "model_scores (classes m) (predict_proba m (normalize_text text)) = Inr scs"
    and "classes m \<noteq> []"
  shows "\<exists>r. classify (Some m) g text = Inr r \<and> scores r = top3_scores scs"
proof -
  have "length (classes m) \<le> length (predict_proba m (normalize_text text))"
    using assms(1) by (rule model_scores_props(4))
  from classify_total[OF assms(2) this, of g] assms(1) show ?thesis
    by (auto simp: found_of_response)
qed

lemma round4_examples:
  "round4 (89 / 128) = 6953 / 10000" "round4 (7 / 128) = 547 / 10000"
  "round4 (1 / 4) = 1 / 4" "round4 (1 / 2) = 1 / 2"
  using round4_at[of 6953 "89 / 128"] round4_at[of 547 "7 / 128"]
    round4_at[of 2500 "1 / 4"] round4_at[of 5000 "1 / 2"]
  by simp_all

lemma blend_top3:
  "top3_scores blend_scores
   = [(ustr ''Rebel'', 6953 / 10000), (ustr ''Explorer'', 1 / 4), (ustr ''Caregiver'', 547 / 10000)]"
proof -
  have "distinct (map fst blend_scores)" by (simp add: blend_scores_def ustr_def)
  from top3_scores_eq[OF this] show ?thesis
    by (simp add: blend_scores_def round4_examples)
qed

lemma tie_model_scores:
  "model_scores (classes tie_model) (predict_proba tie_model t) = Inr tie_scores"
proof -
  have "distinct (map fst tie_scores)" by (simp add: tie_scores_def ustr_def)
  then show ?thesis
    by (simp add: tie_model_def tie_probs_def model_scores_zip zip_map_fst_snd)
qed

lemma tie_top3:
  "top3_scores tie_scores
   = [(ustr ''Rebel'', 1 / 2), (ustr ''Caregiver'', 1 / 4), (ustr ''Explorer'', 1 / 4)]"
proof -
  have "distinct (map fst tie_scores)" by (simp add: tie_scores_def ustr_def)
  from top3_scores_eq[OF this] show ?thesis
    by (simp add: tie_scores_def round4_examples)
qed

section \<open>The statements of the specification\<close>

text \<open>C1. Override rule. Let \<open>top0\<close> be the classifier's best label with score \<open>conf0\<close>,
  \<open>found\<close> the match result for the normalised text, and \<open>ll\<close> the archetype that
  \<open>classify\<close> takes as lexically best. The match count of a label is the number of matched
  keywords that \<open>found\<close> lists for it. Then \<open>classify\<close> returns, and its label is \<open>ll\<close>
  exactly when \<open>ll\<close> has at least 2 matches, has 2 more matches than \<open>top0\<close> or
  \<open>conf0 < 0.55\<close>, and differs from \<open>top0\<close>; otherwise the label is \<open>top0\<close>. In particular
  a best match count below 2 leaves the label \<open>top0\<close>. The response carries \<open>found\<close>, no
  archetype has more matches than \<open>ll\<close>, \<open>ll\<close> is an archetype of the registry, and no label
  has a greater score than \<open>top0\<close>.\<close>

theorem C1_override_iff:
  assumes "model_scores (classes m) (predict_proba m (normalize_text text)) = Inr scs"
    and "model_top scs = Inr top0"
    and "dict_item scs top0 = Inr conf0"
    and "lex_label_of (analyze_patterns_all (normalize_text text)) = Inr (Some ll)"
  shows "\<exists>r. classify (Some m) g text = Inr r
           \<and> patterns_found_all r = analyze_patterns_all (normalize_text text)
           \<and> (label r = ll \<and> ll \<noteq> top0
                \<longleftrightarrow> 2 \<le> length (dict_get (patterns_found_all r) ll [])
                    \<and> (length (dict_get (patterns_found_all r) top0 []) + 2
                          \<le> length (dict_get (patterns_found_all r) ll [])
                        \<or> conf0 < 55 / 100)
                    \<and> ll \<noteq> top0)
           \<and> label r = (if override_fires (patterns_found_all r) top0 conf0 ll then ll else top0)
           \<and> (length (dict_get (patterns_found_all r) ll []) < 2 \<longrightarrow> label r = top0)
           \<and> (\<forall>k. length (dict_get (patterns_found_all r) k [])
                     \<le> length (dict_get (patterns_found_all r) ll []))
           \<and> ll \<in> set (dict_keys ARCHETYPES)
           \<and> (\<forall>k v. (k, v) \<in> set scs \<longrightarrow> v \<le> conf0)"
proof -
  let ?fa = "analyze_patterns_all (normalize_text text)"
  obtain l c where lc: "(l, c) = (if override_fires ?fa top0 conf0 ll
        then (ll, round4 (blend (dict_get scs ll 0))) else (top0, conf0))"
    by (metis surj_pair)
  from classify_eq[OF assms lc, of g] obtain ex
    where r: "classify (Some m) g text = Inr (response_for scs ?fa l c ex)"
    by blast
  from lc have l: "l = (if override_fires ?fa top0 conf0 ll then ll else top0)"
    by (simp split: if_splits)
  have iff: "l = ll \<and> ll \<noteq> top0
        \<longleftrightarrow> 2 \<le> length (dict_get ?fa ll [])
            \<and> (length (dict_get ?fa top0 []) + 2 \<le> length (dict_get ?fa ll [])
                \<or> conf0 < 55 / 100)
            \<and> ll \<noteq> top0"
    unfolding l by (auto simp: override_fires_def match_count_def)
  have floor: "length (dict_get ?fa ll []) < 2 \<longrightarrow> l = top0"
    unfolding l by (simp add: override_fires_def match_count_def)
  have best: "\<forall>k. length (dict_get ?fa k []) \<le> length (dict_get ?fa ll [])"
    using match_count_le_lex_label[OF assms(4)] by (simp add: match_count_def)
  from lex_label_ex[of "normalize_text text"] assms(4)
  have reg: "ll \<in> set (dict_keys ARCHETYPES)" by (simp add: dict_keys_def)
  have "distinct (map fst scs)" using assms(1) by (rule model_scores_props(1))
  with assms(2,3) have argmax: "\<forall>k v. (k, v) \<in> set scs \<longrightarrow> v \<le> conf0"
    using model_top_greatest by blast
  from l iff floor best reg argmax show ?thesis
    unfolding r by (simp add: found_of_response)
qed

theorem C1_override_iff_witness:
  "match_count (analyze_patterns_all (normalize_text demo_text)) (ustr ''Caregiver'') = 3
   \<and> match_count (analyze_patterns_all (normalize_text demo_text)) (ustr ''Rebel'') = 0
   \<and> (\<exists>r. classify (Some blend_model) [] demo_text = Inr r \<and> label r = ustr ''Caregiver'')
   \<and> (\<exists>r. classify (Some blend_model) [] [] = Inr r \<and> label r = ustr ''Rebel'')"
proof -
  from C1_override_iff[OF blend_model_scores blend_model_top blend_model_conf demo_lex_label,
      of "[]"] demo_fires
  have "\<exists>r. classify (Some blend_model) [] demo_text = Inr r \<and> label r = ustr ''Caregiver''"
    by auto
  moreover
  from C1_override_iff[OF blend_model_scores blend_model_top blend_model_conf empty_lex_label,
      of "[]"]
  have "\<exists>r. classify (Some blend_model) [] [] = Inr r \<and> label r = ustr ''Rebel''"
    by (auto simp: empty_not_fires)
  ultimately show ?thesis by (simp add: demo_counts)
qed

text \<open>C2. Confidence. With all classifier scores in \<open>[0, 1]\<close>: when the override fires, the
  confidence is \<open>round(0.52 + 0.48 * s, 4)\<close> for the classifier's score \<open>s\<close> of \<open>ll\<close> (0 when
  the classifier has no label \<open>ll\<close>), the sum and the product being those of double
  arithmetic, and it is at least 0.52; otherwise it is the greatest score \<open>conf0\<close> rounded
  to 4 places. Either way the confidence is a multiple of \<open>1/10000\<close> at most \<open>1/20000\<close>
  away from the value that is rounded.\<close>

theorem C2_confidence:
  assumes "model_scores (classes m) (predict_proba m (normalize_text text)) = Inr scs"
    and "model_top scs = Inr top0"
    and "dict_item scs top0 = Inr conf0"
    and "lex_label_of (analyze_patterns_all (normalize_text text)) = Inr (Some ll)"
    and "\<forall>p \<in> set (predict_proba m (normalize_text text)). 0 \<le> p \<and> p \<le> 1"
  shows "\<exists>r. classify (Some m) g text = Inr r
           \<and> patterns_found_all r = analyze_patterns_all (normalize_text text)
           \<and> confidence r
               = (if override_fires (patterns_found_all r) top0 conf0 ll
                  then round4 (fadd (dbl (52 / 100)) (fmul (dbl (48 / 100)) (dict_get scs ll 0)))
                  else round4 conf0)
           \<and> is_round4 (confidence r)
                (if override_fires (patterns_found_all r) top0 conf0 ll
                 then fadd (dbl (52 / 100)) (fmul (dbl (48 / 100)) (dict_get scs ll 0))
                 else conf0)
           \<and> (override_fires (patterns_found_all r) top0 conf0 ll \<longrightarrow> 52 / 100 \<le> confidence r)
           \<and> (\<forall>k v. (k, v) \<in> set scs \<longrightarrow> v \<le> conf0)"
proof -
  let ?fa = "analyze_patterns_all (normalize_text text)"
  let ?b = "fadd (dbl (52 / 100)) (fmul (dbl (48 / 100)) (dict_get scs ll 0))"
  have b: "blend (dict_get scs ll 0) = ?b" by (simp add: blend_def)
  obtain l c where lc: "(l, c) = (if override_fires ?fa top0 conf0 ll
        then (ll, round4 (blend (dict_get scs ll 0))) else (top0, conf0))"
    by (metis surj_pair)
  from classify_eq[OF assms(1-4) lc, of g] obtain ex
    where r: "classify (Some m) g text = Inr (response_for scs ?fa l c ex)"
    by blast
  from lc have c: "round4 c = (if override_fires ?fa top0 conf0 ll then round4 ?b
        else round4 conf0)"
    by (simp add: round4_idem b split: if_splits)
  have near: "is_round4 (round4 c) (if override_fires ?fa top0 conf0 ll then ?b else conf0)"
    unfolding c by (simp add: round4_is_round4)
  have "0 \<le> dict_get scs ll 0"
  proof (cases "map_of scs ll")
    case None
    then show ?thesis by (simp add: dict_get_def)
  next
    case (Some v)
    then have "(ll, v) \<in> set scs" by (rule map_of_SomeD)
    then have "v \<in> snd ` set scs" by force
    with model_scores_props(3)[OF assms(1)] assms(5) have "0 \<le> v" by blast
    with Some show ?thesis by (simp add: dict_get_def)
  qed
  then have "52 / 100 \<le> round4 (blend (dict_get scs ll 0))" by (rule blend_floor)
  with c b have floor: "override_fires ?fa top0 conf0 ll \<longrightarrow> 52 / 100 \<le> round4 c" by simp
  have "distinct (map fst scs)" using assms(1) by (rule model_scores_props(1))
  with assms(2,3) have argmax: "\<forall>k v. (k, v) \<in> set scs \<longrightarrow> v \<le> conf0"
    using model_top_greatest by blast
  from c near floor argmax show ?thesis
    unfolding r by (simp add: found_of_response)
qed

theorem C2_confidence_witness:
  "(\<exists>r. classify (Some blend_model) [] demo_text = Inr r \<and> confidence r = 5463 / 10000)
   \<and> (\<exists>r. classify (Some blend_model) [] [] = Inr r \<and> confidence r = 6953 / 10000)"
proof -
  have p: "\<forall>p \<in> set (predict_proba blend_model t). 0 \<le> p \<and> p \<le> 1" for t
    by (simp add: blend_model_def blend_probs_def blend_scores_def)
  have c: "round4 (89 / 128) = 6953 / 10000"
    using round4_at[of 6953 "89 / 128"] by simp
  from C2_confidence[OF blend_model_scores blend_model_top blend_model_conf demo_lex_label p,
      of "[]", folded blend_def, unfolded blend_model_caregiver round4_blend_7_128] demo_fires
  have "\<exists>r. classify (Some blend_model) [] demo_text = Inr r \<and> confidence r = 5463 / 10000"
    by auto
  moreover
  from C2_confidence[OF blend_model_scores blend_model_top blend_model_conf empty_lex_label p,
      of "[]"]
  have "\<exists>r. classify (Some blend_model) [] [] = Inr r \<and> confidence r = 6953 / 10000"
    by (auto simp: empty_not_fires c)
  ultimately show ?thesis by simp
qed

text \<open>C3, as the specification states it: a classifier label that is no archetype name makes
  \<open>classify\<close> fail. It does not: the one-class model with the label \<open>Hero\<close> is answered with
  a decision whose label is \<open>Hero\<close>.\<close>

theorem C3_counterexample:
  "ustr ''Hero'' \<notin> set (dict_keys ARCHETYPES)
   \<and> map_sum id label (classify (Some hero_model) [] []) = Inr (ustr ''Hero'')"
proof -
  have lc: "(ustr ''Hero'', 1::rat)
      = (if override_fires (analyze_patterns_all (normalize_text []))
              (ustr ''Hero'') 1 (ustr ''Rebel'')
         then (ustr ''Rebel'', round4 (blend (dict_get [(ustr ''Hero'', 1)] (ustr ''Rebel'') 0)))
         else (ustr ''Hero'', 1))"
    by (simp add: empty_not_fires)
  from classify_eq[OF hero_model_scores hero_model_top hero_model_conf empty_lex_label lc, of "[]"]
  show ?thesis by (auto simp: hero_unknown found_of_response)
qed

text \<open>C3, amended. \<open>classify\<close> compares no label with the archetype names and has no
  schema error. Whenever the classifier has a label and returns a probability for each of
  its labels, \<open>classify\<close> returns a decision; when the decision's label is no archetype
  name, it is the classifier's label, and the matched and the missing keywords are empty.\<close>

theorem C3_no_label_check:
  assumes "classes m \<noteq> []"
    and "length (classes m) \<le> length (predict_proba m (normalize_text text))"
  shows "\<exists>r. classify (Some m) g text = Inr r
           \<and> (label r \<notin> set (dict_keys ARCHETYPES)
                \<longrightarrow> label r \<in> set (classes m) \<and> patterns_found r = []
                    \<and> patterns_missing r = [])"
proof -
  let ?fa = "analyze_patterns_all (normalize_text text)"
  from classify_total[OF assms, of g] obtain scs top0 conf0 ll l c ex
    where ms: "model_scores (classes m) (predict_proba m (normalize_text text)) = Inr scs"
      and mem: "(top0, conf0) \<in> set scs"
      and ll: "ll \<in> set (map fst ARCHETYPES)"
      and lc: "(l, c) = (if override_fires ?fa top0 conf0 ll
                 then (ll, round4 (blend (dict_get scs ll 0)))
                 else (top0, conf0))"
      and r: "classify (Some m) g text = Inr (response_for scs ?fa l c ex)"
    by blast
  have "l \<in> set (classes m) \<and> dict_get ?fa l [] = []
        \<and> keywords_lex (dict_get ARCHETYPES l empty_lexicon) = []"
    if unk: "l \<notin> set (dict_keys ARCHETYPES)"
  proof -
    from unk ll have "l \<noteq> ll" by (auto simp: dict_keys_def)
    with lc have "l = top0" by (simp split: if_splits)
    with mem have "l \<in> fst ` set scs" by force
    then have "l \<in> set (classes m)" using model_scores_props(2)[OF ms] by simp
    moreover have "dict_get ?fa l [] = []" using unk by (rule unknown_label_found)
    moreover have "keywords_lex (dict_get ARCHETYPES l empty_lexicon) = []"
      unfolding ARCHETYPES_get_unknown[OF unk] by (simp add: empty_lexicon_def)
    ultimately show ?thesis by simp
  qed
  with r show ?thesis by (simp add: found_of_response)
qed

theorem C3_no_label_check_witness:
  "classes hero_model \<noteq> []
   \<and> (\<exists>r. classify (Some hero_model) [] [] = Inr r
         \<and> (label r \<notin> set (dict_keys ARCHETYPES)
              \<longrightarrow> label r \<in> set (classes hero_model) \<and> patterns_found r = []
                  \<and> patterns_missing r = []))"
  using C3_no_label_check[of hero_model "[]" "[]"]
  by (simp add: hero_model_def hero_probs_def)

text \<open>C4. Matcher. The match-normalised text is a sequence of tokens (non-empty strings
  without white space) joined by single spaces, and that determines the tokens. A keyword of
  an archetype is reported (in lower case) among that archetype's matches exactly when its
  match-normalised form is the space-joined window of 1, 2 or 3 consecutive tokens; this is
  membership in the n-gram set of the match-normalised text. The text
  \<open>careful development\<close> does not match \<open>care\<close>; the texts \<open>well-being\<close> and \<open>well being\<close>
  both match the Caregiver keyword \<open>well-being\<close>.\<close>

theorem C4_matcher_iff:
  assumes "(name, lx) \<in> set ARCHETYPES" and "kw \<in> set (keywords_lex lx)"
  shows "(\<exists>toks. list_all is_token toks \<and> join [32] toks = norm_for_match text
            \<and> (lower kw \<in> set (dict_get (analyze_patterns_all text) name [])
                 \<longleftrightarrow> (\<exists>i n. 1 \<le> n \<and> n \<le> 3 \<and> i + n \<le> length toks
                        \<and> norm_for_match kw = join [32] (take n (drop i toks)))))
       \<and> (lower kw \<in> set (dict_get (analyze_patterns_all text) name [])
            \<longleftrightarrow> norm_for_match kw \<in> ngram_set (norm_for_match text))
       \<and> (norm_for_match kw \<in> ngram_set (norm_for_match text)
            \<longleftrightarrow> (\<exists>i n. 1 \<le> n \<and> n \<le> 3 \<and> i + n \<le> length (split (norm_for_match text))
                   \<and> norm_for_match kw
                       = join [32] (take n (drop i (split (norm_for_match text))))))
       \<and> ustr ''care'' \<notin> set (dict_get (analyze_patterns_all (ustr ''careful development'')) other [])
       \<and> ustr ''well-being''
            \<in> set (dict_get (analyze_patterns_all (ustr ''well-being'')) (ustr ''Caregiver'') [])
       \<and> ustr ''well-being''
            \<in> set (dict_get (analyze_patterns_all (ustr ''well being'')) (ustr ''Caregiver'') [])"
proof -
  from assms(1) have "map_of ARCHETYPES name = Some lx"
    using ARCHETYPES_distinct by simp
  then have lx: "dict_get ARCHETYPES name empty_lexicon = lx" by (simp add: dict_get_def)
  have a: "lower kw \<in> set (dict_get (analyze_patterns_all text) name [])
            \<longleftrightarrow> norm_for_match kw \<in> ngram_set (norm_for_match text)"
    unfolding analyze_patterns_all_get lx using assms(2) by (rule keyword_hits_lower_iff)
  have b: "norm_for_match kw \<in> ngram_set (norm_for_match text)
            \<longleftrightarrow> (\<exists>i n. 1 \<le> n \<and> n \<le> 3 \<and> i + n \<le> length (split (norm_for_match text))
                   \<and> norm_for_match kw
                       = join [32] (take n (drop i (split (norm_for_match text)))))"
    by (rule ngram_set_iff)
  have t: "\<exists>toks. list_all is_token toks \<and> join [32] toks = norm_for_match text
            \<and> (lower kw \<in> set (dict_get (analyze_patterns_all text) name [])
                 \<longleftrightarrow> (\<exists>i n. 1 \<le> n \<and> n \<le> 3 \<and> i + n \<le> length toks
                        \<and> norm_for_match kw = join [32] (take n (drop i toks))))"
    using norm_for_match_tokens[of "text"] a b
    by (intro exI[of _ "split (norm_for_match text)"]) simp
  have c: "ustr ''care'' \<notin> set (dict_get (analyze_patterns_all (ustr ''careful development'')) other [])"
  proof
    assume "ustr ''care'' \<in> set (dict_get (analyze_patterns_all (ustr ''careful development'')) other [])"
    then obtain kw' where kw': "ustr ''care'' = lower kw'"
      and in_grams: "norm_for_match kw' \<in> ngram_set (norm_for_match (ustr ''careful development''))"
      unfolding analyze_patterns_all_get keyword_hits_iff by blast
    have "lower (ustr ''care'') = lower kw'" unfolding lower_care by (rule kw')
    then have "norm_for_match (ustr ''care'') = norm_for_match kw'"
      by (rule norm_for_match_lower_cong)
    with in_grams care_not_in_careful show False by simp
  qed
  have cg: "dict_get ARCHETYPES (ustr ''Caregiver'') empty_lexicon = CAREGIVER"
    by (simp add: dict_get_def ARCHETYPES_def ustr_def)
  have d: "lower (ustr ''well-being'') \<in> set (dict_get (analyze_patterns_all t) (ustr ''Caregiver'') [])
           \<longleftrightarrow> norm_for_match (ustr ''well-being'') \<in> ngram_set (norm_for_match t)" for t
    unfolding analyze_patterns_all_get cg using well_being_keyword by (rule keyword_hits_lower_iff)
  from t a b c d[of "ustr ''well-being''"] d[of "ustr ''well being''"] well_being_in
  show ?thesis by (simp add: lower_well_being)
qed

theorem C4_matcher_iff_witness:
  "(ustr ''Caregiver'', CAREGIVER) \<in> set ARCHETYPES
   \<and> ustr ''care'' \<in> set (keywords_lex CAREGIVER)
   \<and> lower (ustr ''care'')
       \<notin> set (dict_get (analyze_patterns_all (ustr ''careful development'')) (ustr ''Caregiver'') [])
   \<and> lower (ustr ''care'')
       \<in> set (dict_get (analyze_patterns_all (ustr ''We care.'')) (ustr ''Caregiver'') [])
   \<and> lower (ustr ''well-being'')
       \<in> set (dict_get (analyze_patterns_all (ustr ''Your well-being matters'')) (ustr ''Caregiver'') [])"
proof -
  have a: "(ustr ''Caregiver'', CAREGIVER) \<in> set ARCHETYPES" by (simp add: ARCHETYPES_def)
  have b: "ustr ''care'' \<in> set (keywords_lex CAREGIVER)" by (simp add: CAREGIVER_def)
  from C4_matcher_iff[OF a b, of "ustr ''careful development''"] care_not_in_careful
  have "lower (ustr ''care'')
       \<notin> set (dict_get (analyze_patterns_all (ustr ''careful development'')) (ustr ''Caregiver'') [])"
    by simp
  moreover from C4_matcher_iff[OF a b, of "ustr ''We care.''"] care_in_we_care
  have "lower (ustr ''care'')
       \<in> set (dict_get (analyze_patterns_all (ustr ''We care.'')) (ustr ''Caregiver'') [])"
    by simp
  moreover from C4_matcher_iff[OF a well_being_keyword, of "ustr ''Your well-being matters''"]
    well_being_in_sentence
  have "lower (ustr ''well-being'')
       \<in> set (dict_get (analyze_patterns_all (ustr ''Your well-being matters'')) (ustr ''Caregiver'') [])"
    by simp
  ultimately show ?thesis using a b by simp
qed

text \<open>C5. Top 3. Let \<open>scs\<close> be the score dictionary of the classifier, its keys in the
  order of the label list. \<open>classify\<close> returns, and the \<open>scores\<close> of its response are the
  first three entries of a ranking \<open>srt\<close> of \<open>scs\<close>, each score rounded to 4 places: a
  multiple of \<open>1/10000\<close> at most \<open>1/20000\<close> away from the classifier's score. \<open>srt\<close> has
  the entries of \<open>scs\<close>, in non-increasing order of the score, entries of equal score in
  the order they have in \<open>scs\<close>. So there are \<open>min 3 n\<close> entries for \<open>n\<close> different labels,
  and the rounded scores are non-increasing as well. Ties are ties of the classifier's
  scores: two different scores that round to the same value stay in the order of the
  scores.\<close>

theorem C5_top3:
  assumes "model_scores (classes m) (predict_proba m (normalize_text text)) = Inr scs"
    and "classes m \<noteq> []"
  shows "\<exists>r srt. classify (Some m) g text = Inr r
           \<and> set srt = set scs \<and> length srt = length scs
           \<and> sorted_wrt (\<lambda>a b. snd b \<le> snd a) srt
           \<and> (\<forall>v. filter (\<lambda>kv. snd kv = v) srt = filter (\<lambda>kv. snd kv = v) scs)
           \<and> scores r = map (\<lambda>(k, v). (k, round4 v)) (take 3 srt)
           \<and> list_all2 (\<lambda>out kv. fst out = fst kv \<and> is_round4 (snd out) (snd kv))
                (scores r) (take 3 srt)
           \<and> length (scores r) = min 3 (card (set (classes m)))
           \<and> sorted_wrt (\<lambda>a b. snd b \<le> snd a) (scores r)
           \<and> (distinct (classes m)
                \<longrightarrow> scs = zip (classes m) (predict_proba m (normalize_text text)))"
proof -
  let ?srt = "sort_key (\<lambda>kv. - snd kv) scs"
  have len: "length (classes m) \<le> length (predict_proba m (normalize_text text))"
    using assms(1) by (rule model_scores_props(4))
  from classify_total[OF assms(2) len, of g] assms(1) obtain l c ex
    where r: "classify (Some m) g text
              = Inr (response_for scs (analyze_patterns_all (normalize_text text)) l c ex)"
    by auto
  have dist: "distinct (map fst scs)" using assms(1) by (rule model_scores_props(1))
  then have top3: "top3_scores scs = map (\<lambda>(k, v). (k, round4 v)) (take 3 ?srt)"
    by (rule top3_scores_eq)
  have "length scs = card (set (map fst scs))"
    using dist distinct_card[of "map fst scs"] by simp
  also have "\<dots> = card (set (classes m))"
    using model_scores_props(2)[OF assms(1)] by simp
  finally have n: "length scs = card (set (classes m))" .
  have srt: "sorted_wrt (\<lambda>a b. snd b \<le> snd a) ?srt" by (rule ranking_props(3))
  have zip: "scs = zip (classes m) (predict_proba m (normalize_text text))"
    if "distinct (classes m)"
    using model_scores_zip[OF that len] assms(1) by simp
  let ?r = "response_for scs (analyze_patterns_all (normalize_text text)) l c ex"
  have "length (top3_scores scs) = min 3 (card (set (classes m)))"
    unfolding top3 using n ranking_props(2)[where scs = scs] by (simp add: min.commute)
  moreover have "sorted_wrt (\<lambda>a b. snd b \<le> snd a) (top3_scores scs)"
    unfolding top3 using srt by (rule rounded_sorted)
  moreover have "list_all2 (\<lambda>out kv. fst out = fst kv \<and> is_round4 (snd out) (snd kv))
                  (top3_scores scs) (take 3 ?srt)"
    unfolding top3 by (simp add: list_all2_map1 list_all2_same case_prod_beta round4_is_round4)
  ultimately have "classify (Some m) g text = Inr ?r
        \<and> set ?srt = set scs \<and> length ?srt = length scs
        \<and> sorted_wrt (\<lambda>a b. snd b \<le> snd a) ?srt
        \<and> (\<forall>v. filter (\<lambda>kv. snd kv = v) ?srt = filter (\<lambda>kv. snd kv = v) scs)
        \<and> scores ?r = map (\<lambda>(k, v). (k, round4 v)) (take 3 ?srt)
        \<and> list_all2 (\<lambda>out kv. fst out = fst kv \<and> is_round4 (snd out) (snd kv))
             (scores ?r) (take 3 ?srt)
        \<and> length (scores ?r) = min 3 (card (set (classes m)))
        \<and> sorted_wrt (\<lambda>a b. snd b \<le> snd a) (scores ?r)
        \<and> (distinct (classes m)
             \<longrightarrow> scs = zip (classes m) (predict_proba m (normalize_text text)))"
    unfolding found_of_response
    using r top3 zip ranking_props(1,2,4)[where scs = scs] srt by blast
  then show ?thesis by blast
qed

theorem C5_top3_witness:
  "(\<exists>r. classify (Some blend_model) [] [] = Inr r
        \<and> scores r = [(ustr ''Rebel'', 6953 / 10000), (ustr ''Explorer'', 1 / 4),
                        (ustr ''Caregiver'', 547 / 10000)])
   \<and> (\<exists>r. classify (Some tie_model) [] [] = Inr r
        \<and> scores r = [(ustr ''Rebel'', 1 / 2), (ustr ''Caregiver'', 1 / 4),
                        (ustr ''Explorer'', 1 / 4)])"
proof -
  have b: "classes blend_model \<noteq> []" by (simp add: blend_model_def blend_scores_def)
  have t: "classes tie_model \<noteq> []" by (simp add: tie_model_def tie_scores_def)
  from C5_top3[OF blend_model_scores b, of "[]" "[]"] classify_scores[OF blend_model_scores b, of "[]" "[]"]
  have "\<exists>r. classify (Some blend_model) [] [] = Inr r
        \<and> scores r = [(ustr ''Rebel'', 6953 / 10000), (ustr ''Explorer'', 1 / 4),
                        (ustr ''Caregiver'', 547 / 10000)]"
    unfolding blend_top3 by blast
  moreover
  from C5_top3[OF tie_model_scores t, of "[]" "[]"] classify_scores[OF tie_model_scores t, of "[]" "[]"]
  have "\<exists>r. classify (Some tie_model) [] [] = Inr r
        \<and> scores r = [(ustr ''Rebel'', 1 / 2), (ustr ''Caregiver'', 1 / 4),
                        (ustr ''Explorer'', 1 / 4)]"
    unfolding tie_top3 by blast
  ultimately show ?thesis by blast
qed

text \<open>C6. Missing keywords. In every response of \<open>classify\<close>, the matched keywords are the
  matches of the final label, and the missing keywords are the first 10, in the order of
  the lexicon, of the label's keywords in lower case that are not matched. So there are
  at most 10 of them and none is a matched keyword.\<close>

theorem C6_missing_keywords:
  assumes "classify (Some m) g text = Inr r"
  shows "patterns_found r = dict_get (analyze_patterns_all (normalize_text text)) (label r) []
       \<and> patterns_missing r
           = take 10 (filter (\<lambda>w. w \<notin> set (patterns_found r))
               (map lower (keywords_lex (dict_get ARCHETYPES (label r) empty_lexicon))))
       \<and> length (patterns_missing r) \<le> 10
       \<and> set (patterns_missing r) \<inter> set (patterns_found r) = {}"
proof -
  from classify_Inr_response[OF assms] obtain scs l c ex
    where r: "r = response_for scs (analyze_patterns_all (normalize_text text)) l c ex"
    by blast
  have "set (take 10 (filter (\<lambda>w. w \<notin> A) xs)) \<inter> A = {}" for A :: "str set" and xs
    using set_take_subset[of 10 "filter (\<lambda>w. w \<notin> A) xs"] by auto
  then show ?thesis unfolding r by (simp add: found_of_response)
qed

theorem C6_missing_keywords_witness:
  "\<exists>r. classify (Some demo_model) [] [] = Inr r \<and> length (patterns_missing r) \<le> 10
       \<and> set (patterns_missing r) \<inter> set (patterns_found r) = {}"
proof -
  have "classes demo_model \<noteq> []"
    and "length (classes demo_model) \<le> length (predict_proba demo_model (normalize_text []))"
    by (simp_all add: demo_model_def demo_probs_def)
  from classify_total[OF this, of "[]"] obtain r
    where r: "classify (Some demo_model) [] [] = Inr r"
    by blast
  from C6_missing_keywords[OF r] r show ?thesis by blast
qed

text \<open>C7. Empty text. For a text whose match-normalised form is empty (the empty text is
  one), the matcher returns every archetype of the registry with no matched keyword, on the
  text and on its display-normalised form. \<open>classify\<close> still asks the classifier about the
  display-normalised text: with the scores \<open>scs\<close> it returns for that text, the response
  has the classifier's best label and its score rounded, and no matched keyword.\<close>

theorem C7_empty_text:
  assumes "norm_for_match text = []"
    and "model_scores (classes m) (predict_proba m (normalize_text text)) = Inr scs"
    and "model_top scs = Inr top0"
    and "dict_item scs top0 = Inr conf0"
  shows "norm_for_match [] = [] \<and> normalize_text [] = []
       \<and> analyze_patterns_all text = no_matches
       \<and> analyze_patterns_all (normalize_text text) = no_matches
       \<and> (\<exists>r. classify (Some m) g text = Inr r \<and> label r = top0
              \<and> confidence r = round4 conf0 \<and> scores r = top3_scores scs
              \<and> patterns_found r = [] \<and> patterns_found_all r = no_matches)"
proof -
  let ?fa = "analyze_patterns_all (normalize_text text)"
  have n: "norm_for_match (normalize_text text) = []"
    using assms(1) by (rule norm_for_match_normalize_Nil)
  then have fa: "?fa = no_matches" by (rule analyze_patterns_all_none)
  obtain ll where ll: "lex_label_of ?fa = Inr (Some ll)" using lex_label_ex by blast
  have nf: "\<not> override_fires ?fa top0 conf0 ll"
    by (simp add: override_fires_def match_count_def no_hits[OF n])
  then have lc: "(top0, conf0) = (if override_fires ?fa top0 conf0 ll
        then (ll, round4 (blend (dict_get scs ll 0))) else (top0, conf0))"
    by simp
  from classify_eq[OF assms(2-4) ll lc, of g] obtain ex
    where "classify (Some m) g text = Inr (response_for scs ?fa top0 conf0 ex)"
    by blast
  then have "\<exists>r. classify (Some m) g text = Inr r \<and> label r = top0
              \<and> confidence r = round4 conf0 \<and> scores r = top3_scores scs
              \<and> patterns_found r = [] \<and> patterns_found_all r = no_matches"
    using fa no_hits[OF n, of top0] by (simp add: found_of_response)
  moreover have "analyze_patterns_all text = no_matches"
    using assms(1) by (rule analyze_patterns_all_none)
  ultimately show ?thesis using fa by (simp add: norm_for_match_empty normalize_text_Nil)
qed

theorem C7_empty_text_witness:
  "analyze_patterns_all [] = no_matches
   \<and> (\<exists>r. classify (Some demo_model) [] [] = Inr r \<and> label r = ustr ''Rebel''
          \<and> patterns_found r = [])"
  using C7_empty_text[OF norm_for_match_empty demo_model_scores demo_model_top demo_model_conf,
      of "[]"]
  by auto

text \<open>C8. Determinism. Two runs of \<open>classify\<close> on the same model and text differ in the state
  of the random source only, which \<open>rewrite\<close> alone reads. Both runs fail with the same
  error, or both return, with the same label, confidence, matched keywords, missing keywords
  and top 3.\<close>

theorem C8_deterministic:
  "map_sum id decision_of (classify model g1 text)
   = map_sum id decision_of (classify model g2 text)"
proof (cases model)
  case None
  then show ?thesis by (simp add: classify_def)
next
  case (Some m)
  let ?fa = "analyze_patterns_all (normalize_text text)"
  let ?D = "bind (model_scores (classes m) (predict_proba m (normalize_text text))) (\<lambda>scs.
            bind (model_top scs) (\<lambda>top0.
            bind (dict_item scs top0) (\<lambda>conf0.
            bind (lexicon_override top0 conf0 scs ?fa) (\<lambda>(l, c).
            Inr (decision_of (response_for scs ?fa l c []))))))"
  have "map_sum id decision_of (classify (Some m) g text) = ?D" for g
  proof -
    have "\<forall>l. \<exists>p. rewrite g text l (ustr ''Your brand'') = Inr p"
      using rewrite_total[of g "text" _ "ustr ''Your brand''"] by auto
    then obtain f where f: "\<And>l. rewrite g text l (ustr ''Your brand'') = Inr (f l)"
      by metis
    show ?thesis
      by (simp add: classify_def bind_def Let_def f decision_of_def response_for_def
          split: sum.splits prod.splits)
  qed
  from this[of g1] this[of g2] Some show ?thesis by simp
qed

text \<open>C9. Rewrite fallback. For an archetype without templates, \<open>rewrite\<close> returns the
  display-normalised text after the archetype's word swaps: unchanged when it has at most
  120 characters, else its first 120 characters followed by three dots. A target that is
  no archetype of the registry has no word swaps and no templates; \<open>rewrite\<close> raises no error
  for it. The random source is left as it was.\<close>

theorem C9_rewrite_fallback:
  "(templates lx = [] \<longrightarrow>
      rewrite_lex lx g text brand
      = Inr (if length (normalize_text (apply_replacements (replace lx) text)) \<le> 120
             then normalize_text (apply_replacements (replace lx) text)
             else take 120 (normalize_text (apply_replacements (replace lx) text)) @ ustr ''...'',
             g))
   \<and> (target \<notin> set (dict_keys ARCHETYPES) \<longrightarrow>
      rewrite g text target brand
      = Inr (if length (normalize_text text) \<le> 120 then normalize_text text
             else take 120 (normalize_text text) @ ustr ''...'', g))"
  by (auto simp: rewrite_lex_fallback rewrite_unknown Let_def)

theorem C9_rewrite_fallback_witness:
  "templates plain_lexicon = []
   \<and> rewrite_lex plain_lexicon [] (ustr ''Our features!'') (ustr ''Your brand'')
       = Inr (ustr ''Our parts'', [])
   \<and> ustr ''Hero'' \<notin> set (dict_keys ARCHETYPES)
   \<and> rewrite [] (ustr ''Our features!'') (ustr ''Hero'') (ustr ''Your brand'')
       = Inr (ustr ''Our features'', [])"
proof -
  have a: "templates plain_lexicon = []" by (simp add: plain_lexicon_def)
  have b: "normalize_text (apply_replacements (replace plain_lexicon) (ustr ''Our features!''))
           = ustr ''Our parts''"
    by (simp add: plain_lexicon_def apply_replacements_def str_replace_def str_defs char_defs)
  have c: "normalize_text (ustr ''Our features!'') = ustr ''Our features''"
    by (simp add: str_defs char_defs)
  from C9_rewrite_fallback[of plain_lexicon "[]" "ustr ''Our features!''" "ustr ''Your brand''"
      "ustr ''Hero''"] a hero_unknown
  show ?thesis unfolding b c by (simp add: ustr_def)
qed

text \<open>C10. Long keywords. A keyword whose match-normalised form has four or more tokens is
  never among the matches of any archetype, whatever the text: the n-gram set holds windows
  of 1 to 3 tokens only. The Explorer keyword \<open>find your own way\<close> is one; it is in no
  match result and in no response of \<open>classify\<close>.\<close>

theorem C10_long_keywords:
  assumes "4 \<le> length (split (norm_for_match kw))"
  shows "norm_for_match kw \<notin> ngram_set (norm_for_match text)
       \<and> lower kw \<notin> set (dict_get (analyze_patterns_all text) name [])
       \<and> ustr ''find your own way'' \<in> set (keywords_lex EXPLORER)
       \<and> ustr ''find your own way'' \<notin> set (dict_get (analyze_patterns_all text) name [])
       \<and> (\<forall>m g r. classify (Some m) g text = Inr r
             \<longrightarrow> ustr ''find your own way'' \<notin> set (patterns_found r))"
proof -
  have long: "lower k \<notin> set (dict_get (analyze_patterns_all t) nm [])
              \<and> norm_for_match k \<notin> ngram_set (norm_for_match t)"
    if k: "4 \<le> length (split (norm_for_match k))" for k t nm
  proof -
    have ng: "norm_for_match k' \<notin> ngram_set (norm_for_match t)" if "lower k' = lower k" for k'
    proof
      assume "norm_for_match k' \<in> ngram_set (norm_for_match t)"
      then have "length (split (norm_for_match k')) \<le> 3" using ngram_token_count by blast
      moreover have "norm_for_match k' = norm_for_match k"
        using that by (rule norm_for_match_lower_cong)
      ultimately show False using k by simp
    qed
    have "lower k \<notin> set (dict_get (analyze_patterns_all t) nm [])"
      unfolding analyze_patterns_all_get keyword_hits_iff using ng by force
    with ng[of k] show ?thesis by simp
  qed
  have way: "4 \<le> length (split (norm_for_match (ustr ''find your own way'')))"
    by (simp add: split_find_your_own_way)
  have w: "ustr ''find your own way'' \<notin> set (dict_get (analyze_patterns_all t) nm [])" for t nm
    using long[OF way, of t nm] by (simp add: lower_find_your_own_way)
  have "ustr ''find your own way'' \<notin> set (patterns_found r)"
    if "classify (Some m) g text = Inr r" for m g r
  proof -
    from classify_Inr_response[OF that] obtain scs l c ex
      where "r = response_for scs (analyze_patterns_all (normalize_text text)) l c ex"
      by blast
    then show ?thesis using w by (simp add: found_of_response)
  qed
  moreover have "ustr ''find your own way'' \<in> set (keywords_lex EXPLORER)"
    by (simp add: EXPLORER_def)
  ultimately show ?thesis using long[OF assms, of "text" name] w[of "text" name] by blast
qed

theorem C10_long_keywords_witness:
  "4 \<le> length (split (norm_for_match (ustr ''find your own way'')))
   \<and> ustr ''find your own way''
       \<notin> set (dict_get (analyze_patterns_all (ustr ''find your own way'')) (ustr ''Explorer'') [])"
proof -
  have way: "4 \<le> length (split (norm_for_match (ustr ''find your own way'')))"
    by (simp add: split_find_your_own_way)
  from C10_long_keywords[OF way, of "ustr ''find your own way''" "ustr ''Explorer''"] way
  show ?thesis by blast
qed

end
